theory Spec2Isabelle
  imports Main
begin

section \<open>Text, files and errors\<close>

text \<open>
  A Python \<open>str\<close> is a sequence of Unicode code points, so a string is a list of code
  points, each a natural number. \<open>ustr\<close> turns an ASCII literal into such a list.

  A file system maps a path to the text stored under it. The files are opened in text
  mode with the default \<open>newline=None\<close>: reading translates \<open>\r\n\<close> and a lone
  \<open>\r\<close> to \<open>\n\<close> (\<open>universal_newlines\<close>); writing stores the text as it is
  (POSIX). Opening a missing file for reading raises \<open>FileNotFoundError\<close>. Directories,
  permissions, file names that the operating system refuses, undecodable bytes and the
  console output are not part of the model, and \<open>os.path\<close> is \<open>posixpath\<close>.
\<close>

type_synonym ustring = "nat list"

type_synonym fs = "ustring \<rightharpoonup> ustring"

datatype py_error = FileNotFoundError | ValueError | IndexError

definition ustr :: "string \<Rightarrow> ustring" where
  "ustr s = map of_char s"

abbreviation NL :: nat where "NL \<equiv> 10"
abbreviation CR :: nat where "CR \<equiv> 13"
abbreviation SPACE :: nat where "SPACE \<equiv> 32"
abbreviation HASH :: nat where "HASH \<equiv> 35"
abbreviation DOT :: nat where "DOT \<equiv> 46"
abbreviation SLASH :: nat where "SLASH \<equiv> 47"

fun universal_newlines :: "ustring \<Rightarrow> ustring" where
  "universal_newlines [] = []"
| "universal_newlines [c] = (if c = CR then [NL] else [c])"
| "universal_newlines (c # d # cs) =
     (if c = CR then (if d = NL then NL # universal_newlines cs
                      else NL # universal_newlines (d # cs))
      else c # universal_newlines (d # cs))"

definition read_text :: "fs \<Rightarrow> ustring \<Rightarrow> ustring option" where
  "read_text files path = map_option universal_newlines (files path)"

section \<open>String methods\<close>

definition startswith :: "ustring \<Rightarrow> ustring \<Rightarrow> bool" where
  \<comment> \<open>\<open>s.startswith(pre)\<close>\<close>
  "startswith pre s = (take (length pre) s = pre)"

definition endswith :: "ustring \<Rightarrow> ustring \<Rightarrow> bool" where
  \<comment> \<open>\<open>s.endswith(suf)\<close>\<close>
  "endswith suf s = (length suf \<le> length s \<and> drop (length s - length suf) s = suf)"

definition is_linebreak :: "nat \<Rightarrow> bool" where
  \<comment> \<open>the line boundaries of \<open>str.splitlines\<close>: LF, VT, FF, CR, FS, GS, RS, NEL
      (\<open>0x85\<close>), LINE SEPARATOR (\<open>0x2028\<close>) and PARAGRAPH SEPARATOR (\<open>0x2029\<close>)\<close>
  "is_linebreak c = (c \<in> {10, 11, 12, 13, 28, 29, 30, 133, 8232, 8233})"

fun splitlines_from :: "ustring \<Rightarrow> ustring \<Rightarrow> ustring list" where
  "splitlines_from cur [] = (if cur = [] then [] else [cur])"
| "splitlines_from cur (c # cs) =
     (if c = CR then
        (case cs of
           [] \<Rightarrow> cur # splitlines_from [] cs
         | d # ds \<Rightarrow> if d = NL then cur # splitlines_from [] ds
                     else cur # splitlines_from [] cs)
      else if is_linebreak c then cur # splitlines_from [] cs
      else splitlines_from (cur @ [c]) cs)"

definition splitlines :: "ustring \<Rightarrow> ustring list" where
  \<comment> \<open>\<open>s.splitlines()\<close>: no line for the empty string, none after a final boundary\<close>
  "splitlines s = splitlines_from [] s"

definition is_space :: "nat \<Rightarrow> bool" where
  \<comment> \<open>the code points \<open>str.strip()\<close> removes (those with \<open>str.isspace\<close>)\<close>
  "is_space c = ((9 \<le> c \<and> c \<le> 13) \<or> (28 \<le> c \<and> c \<le> 32) \<or> c = 133 \<or> c = 160
     \<or> c = 5760 \<or> (8192 \<le> c \<and> c \<le> 8202) \<or> c = 8232 \<or> c = 8233 \<or> c = 8239
     \<or> c = 8287 \<or> c = 12288)"

definition strip :: "ustring \<Rightarrow> ustring" where
  \<comment> \<open>\<open>s.strip()\<close>\<close>
  "strip s = rev (dropWhile is_space (rev (dropWhile is_space s)))"

definition lstrip :: "ustring \<Rightarrow> ustring \<Rightarrow> ustring" where
  \<comment> \<open>\<open>s.lstrip(chars)\<close>\<close>
  "lstrip chars s = dropWhile (\<lambda>c. c \<in> set chars) s"

fun str_join :: "ustring \<Rightarrow> ustring list \<Rightarrow> ustring" where
  \<comment> \<open>\<open>sep.join(xs)\<close>\<close>
  "str_join sep [] = []"
| "str_join sep [x] = x"
| "str_join sep (x # y # xs) = x @ sep @ str_join sep (y # xs)"

function str_replace :: "ustring \<Rightarrow> ustring \<Rightarrow> ustring \<Rightarrow> ustring" where
  \<comment> \<open>\<open>s.replace(old, new)\<close>: the occurrences of \<open>old\<close>, found from left to right\<close>
  "str_replace old new [] = (if old = [] then new else [])"
| "str_replace old new (c # cs) =
     (if old = [] then new @ c # str_replace old new cs
      else if startswith old (c # cs)
        then new @ str_replace old new (drop (length old) (c # cs))
      else c # str_replace old new cs)"
  by pat_completeness auto
termination
  by (relation "measure (\<lambda>(old, new, s). length s)") auto

definition lower :: "ustring \<Rightarrow> ustring" where
  \<comment> \<open>\<open>s.lower()\<close> on the letters \<open>A\<close> to \<open>Z\<close>; the other code points are kept\<close>
  "lower s = map (\<lambda>c. if 65 \<le> c \<and> c \<le> 90 then c + 32 else c) s"

text \<open>
  Python lower-cases the letters beyond ASCII as well. \<open>lower\<close> is used for one test
  only, whether the lower-cased path ends in \<open>.md\<close>; no code point beyond ASCII has a
  lower-case form that ends in \<open>.\<close>, \<open>m\<close> or \<open>d\<close>, so that test has the same
  answer here as in Python.
\<close>

section \<open>Paths\<close>

definition path_join :: "ustring \<Rightarrow> ustring \<Rightarrow> ustring" where
  \<comment> \<open>\<open>os.path.join(a, b)\<close>\<close>
  "path_join a b =
     (if startswith [SLASH] b then b
      else if a = [] \<or> endswith [SLASH] a then a @ b
      else a @ [SLASH] @ b)"

definition rfind :: "nat \<Rightarrow> ustring \<Rightarrow> int" where
  \<comment> \<open>\<open>p.rfind(c)\<close> for a single character: the last index of \<open>c\<close>, which is the
      length less one less the number of characters after the last \<open>c\<close>, or \<open>-1\<close>\<close>
  "rfind c p =
     (if c \<in> set p
      then int (length p - 1 - length (takeWhile (\<lambda>x. x \<noteq> c) (rev p)))
      else - 1)"

definition basename :: "ustring \<Rightarrow> ustring" where
  \<comment> \<open>\<open>os.path.basename(p)\<close>: \<open>p[p.rfind('/') + 1:]\<close>\<close>
  "basename p = drop (nat (rfind SLASH p + 1)) p"

definition splitext :: "ustring \<Rightarrow> ustring \<times> ustring" where
  \<comment> \<open>\<open>os.path.splitext(p)\<close>: the last dot after the last slash starts the extension,
      unless only dots come before it in the file name\<close>
  "splitext p =
     (let sepIndex = rfind SLASH p; dotIndex = rfind DOT p
      in if dotIndex > sepIndex
            \<and> list_ex (\<lambda>k. p ! k \<noteq> DOT) [nat (sepIndex + 1)..<nat dotIndex]
         then (take (nat dotIndex) p, drop (nat dotIndex) p)
         else (p, []))"

section \<open>Step 2: the splitter\<close>

definition heading_prefix :: "int \<Rightarrow> ustring" where
  \<comment> \<open>\<open>heading_str + " "\<close> with \<open>heading_str = "#" * int(heading_lvl)\<close>; a count
      below one gives the empty \<open>heading_str\<close>\<close>
  "heading_prefix L = replicate (nat L) HASH @ [SPACE]"

definition split_indices :: "int \<Rightarrow> ustring list \<Rightarrow> nat list" where
  "split_indices L lines =
     [idx. (idx, line) \<leftarrow> enumerate 0 lines, startswith (heading_prefix L) line]"

definition slice :: "'a list \<Rightarrow> nat \<Rightarrow> nat \<Rightarrow> 'a list" where
  \<comment> \<open>\<open>xs[a:b]\<close> for non-negative \<open>a\<close> and \<open>b\<close>\<close>
  "slice xs a b = take (b - a) (drop a xs)"

definition end_index_of :: "ustring list \<Rightarrow> nat list \<Rightarrow> nat \<Rightarrow> nat" where
  "end_index_of lines idxs i =
     (if i + 1 < length idxs then idxs ! (i + 1) else length lines)"

definition heading_text_of :: "ustring \<Rightarrow> ustring" where
  "heading_text_of first_line = strip (lstrip [HASH] first_line)"

definition forbidden :: "nat list" where
  \<comment> \<open>the class \<open>[\\/*?:"<>|]\<close>: backslash, slash, star, question mark, colon,
      double quote, less, greater, bar\<close>
  "forbidden = [92, 47, 42, 63, 58, 34, 60, 62, 124]"

definition sanitize :: "ustring \<Rightarrow> ustring" where
  \<comment> \<open>\<open>re.sub(r'[\\/*?:"<>|]', '', heading_text)\<close>\<close>
  "sanitize s = filter (\<lambda>c. c \<notin> set forbidden) s"

definition note_path_of :: "ustring \<Rightarrow> ustring \<Rightarrow> ustring" where
  "note_path_of outdir first_line =
     path_join outdir (sanitize (heading_text_of first_line) @ ustr ''.md'')"

definition note_text :: "ustring list \<Rightarrow> ustring" where
  \<comment> \<open>what the two \<open>write\<close> calls put into the note\<close>
  "note_text chunk_lines = str_join [NL] chunk_lines @ [NL]"

fun step_2_loop ::
  "ustring \<Rightarrow> ustring list \<Rightarrow> nat list \<Rightarrow> (nat \<times> nat) list \<Rightarrow> ustring list \<times> fs
     \<Rightarrow> py_error + (ustring list \<times> fs)" where
  "step_2_loop outdir lines idxs [] st = Inr st"
| "step_2_loop outdir lines idxs ((i, start_index) # rest) st =
     (let chunk_lines = slice lines start_index (end_index_of lines idxs i)
      in case chunk_lines of
           [] \<Rightarrow> Inl IndexError
         | first_line # _ \<Rightarrow>
             (let note_file_path = note_path_of outdir first_line
              in step_2_loop outdir lines idxs rest
                   (fst st @ [note_file_path],
                    (snd st)(note_file_path \<mapsto> note_text chunk_lines))))"

definition step_2 ::
  "fs \<Rightarrow> ustring \<Rightarrow> ustring \<Rightarrow> int option \<Rightarrow> py_error + (ustring list \<times> fs)" where
  \<comment> \<open>\<open>heading_lvl\<close> is the value of \<open>int(heading_lvl)\<close>, \<open>None\<close> when it raises\<close>
  "step_2 files outfile_path outdir_path heading_lvl =
     (case read_text files outfile_path of
        None \<Rightarrow> Inl FileNotFoundError
      | Some content \<Rightarrow>
          (case heading_lvl of
             None \<Rightarrow> Inl ValueError
           | Some L \<Rightarrow>
               (let lines = splitlines content;
                    idxs = split_indices L lines
                in if idxs = [] then Inr ([], files)
                   else step_2_loop outdir_path lines idxs (enumerate 0 idxs) ([], files))))"

text \<open>
  The values \<open>chunk_lines\<close> takes in the loop of \<open>step_2\<close>, in order: the chunks of
  the document.
\<close>

definition chunks_of :: "int \<Rightarrow> ustring \<Rightarrow> ustring list list" where
  "chunks_of L content =
     (let lines = splitlines content; idxs = split_indices L lines
      in map (\<lambda>(i, start_index). slice lines start_index (end_index_of lines idxs i))
           (enumerate 0 idxs))"

definition is_heading :: "int \<Rightarrow> ustring \<Rightarrow> bool" where
  "is_heading L line = startswith (heading_prefix L) line"

section \<open>Step 3: the metadata injector\<close>

fun step_3_loop :: "ustring \<Rightarrow> ustring list \<Rightarrow> fs \<Rightarrow> py_error + fs" where
  "step_3_loop yaml_template [] files = Inr files"
| "step_3_loop yaml_template (note_path # rest) files =
     (if endswith (ustr ''.md'') (lower note_path) then
        (case read_text files note_path of
           None \<Rightarrow> Inl FileNotFoundError
         | Some original_content \<Rightarrow>
             step_3_loop yaml_template rest
               (files(note_path \<mapsto> yaml_template @ [NL, NL] @ original_content)))
      else step_3_loop yaml_template rest files)"

definition step_3 :: "fs \<Rightarrow> ustring list \<Rightarrow> ustring \<Rightarrow> py_error + fs" where
  "step_3 files note_files metadata_path =
     (case read_text files metadata_path of
        None \<Rightarrow> Inl FileNotFoundError
      | Some t \<Rightarrow> step_3_loop (strip t) note_files files)"

section \<open>Step 4: the resource appender\<close>

definition placeholder :: ustring where
  "placeholder = ustr ''<NEXT_NOTE_LINK>''"

definition next_note_link :: "ustring list \<Rightarrow> nat \<Rightarrow> ustring" where
  "next_note_link note_files i =
     (if int i < int (length note_files) - 1
      then ustr ''[['' @ fst (splitext (basename (note_files ! (i + 1)))) @ ustr '']]''
      else ustr ''N/A'')"

definition resources_content :: "ustring \<Rightarrow> ustring list \<Rightarrow> nat \<Rightarrow> ustring" where
  "resources_content resources_base note_files i =
     str_replace placeholder (next_note_link note_files i) resources_base"

fun step_4_loop :: "ustring \<Rightarrow> ustring list \<Rightarrow> nat list \<Rightarrow> fs \<Rightarrow> py_error + fs" where
  "step_4_loop resources_base note_files [] files = Inr files"
| "step_4_loop resources_base note_files (i # rest) files =
     (case read_text files (note_files ! i) of
        None \<Rightarrow> Inl FileNotFoundError
      | Some original_content \<Rightarrow>
          step_4_loop resources_base note_files rest
            (files(note_files ! i \<mapsto>
               original_content @ [NL, NL]
                 @ resources_content resources_base note_files i @ [NL])))"

definition step_4 :: "fs \<Rightarrow> ustring list \<Rightarrow> ustring \<Rightarrow> py_error + fs" where
  "step_4 files note_files resources_path =
     (case read_text files resources_path of
        None \<Rightarrow> Inl FileNotFoundError
      | Some t \<Rightarrow> step_4_loop (strip t) note_files [0..<length note_files] files)"

section \<open>The pipeline\<close>

text \<open>
  Step 1 runs the external converter; what it leaves in the file system is a parameter
  of the model (\<open>step_1\<close>). The outcome tells which \<open>return\<close> of \<open>main\<close> was taken.
  The arguments are those of the parser; \<open>heading_level\<close> holds the value of
  \<open>int(args.heading_level)\<close>, which \<open>step_2\<close> computes, or \<open>None\<close> when the text is
  no integer.
\<close>

record args =
  epub :: ustring
  outfile :: ustring
  attachments :: ustring
  metadata :: ustring
  resources :: ustring
  outdir :: ustring
  heading_level :: "int option"
  only_step_1 :: bool
  no_step_1 :: bool

datatype outcome = OnlyStep1 | NoNotes | Complete

definition files_after_step_1 ::
  "(ustring \<Rightarrow> ustring \<Rightarrow> ustring \<Rightarrow> fs \<Rightarrow> fs) \<Rightarrow> args \<Rightarrow> fs \<Rightarrow> fs" where
  \<comment> \<open>\<open>if not args.no_step_1: step_1(args.epub, args.attachments, args.outfile)\<close>\<close>
  "files_after_step_1 step_1 a files =
     (if \<not> no_step_1 a then step_1 (epub a) (attachments a) (outfile a) files else files)"

definition main ::
  "(ustring \<Rightarrow> ustring \<Rightarrow> ustring \<Rightarrow> fs \<Rightarrow> fs) \<Rightarrow> args \<Rightarrow> fs \<Rightarrow> py_error + (outcome \<times> fs)" where
  "main step_1 a files =
     (if only_step_1 a then Inr (OnlyStep1, step_1 (epub a) (attachments a) (outfile a) files)
      else
        (case step_2 (files_after_step_1 step_1 a files) (outfile a) (outdir a)
                (heading_level a) of
           Inl e \<Rightarrow> Inl e
         | Inr (note_files, files2) \<Rightarrow>
             if note_files = [] then Inr (NoNotes, files2)
             else (case step_3 files2 note_files (metadata a) of
                     Inl e \<Rightarrow> Inl e
                   | Inr files3 \<Rightarrow>
                       (case step_4 files3 note_files (resources a) of
                          Inl e \<Rightarrow> Inl e
                        | Inr files4 \<Rightarrow> Inr (Complete, files4)))))"

section \<open>Notions used in the statements\<close>

text \<open>
  The splitter as the specification words it: a chunk begins at each line that satisfies
  \<open>P\<close> and runs up to, but not including, the next such line.
\<close>

fun spec_chunks :: "('a \<Rightarrow> bool) \<Rightarrow> 'a list \<Rightarrow> 'a list list" where
  "spec_chunks P [] = []"
| "spec_chunks P (x # xs) =
     (if P x then (x # takeWhile (\<lambda>y. \<not> P y) xs) # spec_chunks P xs else spec_chunks P xs)"

text \<open>The comprehension of \<open>split_indices\<close>, with the first index a parameter.\<close>

definition idx_from :: "('a \<Rightarrow> bool) \<Rightarrow> nat \<Rightarrow> 'a list \<Rightarrow> nat list" where
  "idx_from P k xs = [idx. (idx, x) \<leftarrow> enumerate k xs, P x]"

text \<open>The writes of the loop of \<open>step_2\<close>, one for each chunk, in order.\<close>

definition write_notes :: "ustring \<Rightarrow> ustring list list \<Rightarrow> fs \<Rightarrow> fs" where
  "write_notes outdir_path cs files =
     fold (\<lambda>c f. f(note_path_of outdir_path (hd c) \<mapsto> note_text c)) cs files"

text \<open>A text ends in exactly one newline.\<close>

definition ends_in_one_newline :: "ustring \<Rightarrow> bool" where
  "ends_in_one_newline s = (endswith [NL] s \<and> \<not> endswith [NL, NL] s)"

text \<open>What one pass of the loop of \<open>step_3\<close> makes of the stored content of a note.\<close>

definition prepend_once :: "ustring \<Rightarrow> ustring \<Rightarrow> ustring" where
  "prepend_once yaml stored = yaml @ [NL, NL] @ universal_newlines stored"


text \<open>What one pass of the loop of \<open>step_4\<close> makes of the stored content of a note.\<close>

definition append_once :: "ustring \<Rightarrow> ustring list \<Rightarrow> ustring \<Rightarrow> nat \<Rightarrow> ustring" where
  "append_once base note_files stored i =
     universal_newlines stored @ [NL, NL] @ resources_content base note_files i @ [NL]"

text \<open>
  The lines of \<open>new\<close> are the lines of \<open>old\<close>, one empty line and the lines of
  \<open>res\<close>: the reading of "separated by exactly one blank line".
\<close>

definition separated_by_one_blank_line :: "ustring \<Rightarrow> ustring \<Rightarrow> ustring \<Rightarrow> bool" where
  "separated_by_one_blank_line old res new =
     (splitlines new = splitlines old @ [[]] @ splitlines res)"

text \<open>A converter for the runs that skip step 1: it is never called.\<close>

definition converter_not_run :: "ustring \<Rightarrow> ustring \<Rightarrow> ustring \<Rightarrow> fs \<Rightarrow> fs" where
  "converter_not_run epub_path attachments_dir outfile_path files = files"

text \<open>An example command line: \<open>book.epub book.md --no-step-1\<close>.\<close>

definition example_args :: args where
  "example_args = \<lparr>epub = ustr ''book.epub'', outfile = ustr ''book.md'',
     attachments = ustr ''attachments'', metadata = ustr ''templates/metadata.yml'',
     resources = ustr ''templates/resources.md'', outdir = ustr ''notes'',
     heading_level = Some 1, only_step_1 = False, no_step_1 = True\<rparr>"

section \<open>Sanitising a heading\<close>

text \<open>
  Claim C9. Removing the characters \<open>\ / * ? : " < > |\<close> from a heading text twice gives
  what removing them once gives, and none of these characters is left in the result.
\<close>

theorem sanitize_idempotent_clean:
  "sanitize (sanitize s) = sanitize s \<and> set (sanitize s) \<inter> set forbidden = {}"
  by (auto simp: sanitize_def)

section \<open>Evaluation\<close>

text \<open>The definitions that the simplifier unfolds to run the model on a concrete input.\<close>

lemmas eval_text = ustr_def splitlines_def is_linebreak_def startswith_def endswith_def
  is_heading_def heading_prefix_def read_text_def
lemmas eval_chunks = chunks_of_def split_indices_def slice_def end_index_of_def Let_def

lemmas eval_path = note_path_of_def heading_text_of_def strip_def lstrip_def is_space_def
  sanitize_def forbidden_def path_join_def note_text_def

lemmas eval_step_3 = step_3_def read_text_def strip_def is_space_def lower_def endswith_def
  ustr_def

lemmas eval_step_4 = step_4_def read_text_def strip_def is_space_def endswith_def
  resources_content_def next_note_link_def placeholder_def startswith_def ustr_def

section \<open>The chunks of the splitter\<close>

lemma idx_from_Nil [simp]: "idx_from P k [] = []"
  by (simp add: idx_from_def)

lemma idx_from_Cons [simp]:
  "idx_from P k (x # xs) = (if P x then k # idx_from P (Suc k) xs else idx_from P (Suc k) xs)"
  by (simp add: idx_from_def)

lemma idx_from_next:
  "(case idx_from P k xs of [] \<Rightarrow> k + length xs | e # _ \<Rightarrow> e)
     = k + length (takeWhile (\<lambda>y. \<not> P y) xs)"
proof (induction xs arbitrary: k)
  case Nil
  show ?case by simp
next
  case (Cons x xs)
  show ?case using Cons.IH [of "Suc k"] by (auto split: list.splits)
qed

lemma end_index_of_mid:
  "end_index_of full (ipre @ k # rest) (length ipre)
     = (case rest of [] \<Rightarrow> length full | e # _ \<Rightarrow> e)"
  by (cases rest) (simp_all add: end_index_of_def nth_append)

lemma chunks_general:
  "map (\<lambda>(i, s). slice (pre @ xs) s (end_index_of (pre @ xs) (ipre @ idx_from P (length pre) xs) i))
       (enumerate (length ipre) (idx_from P (length pre) xs))
   = spec_chunks P xs"
proof (induction xs arbitrary: pre ipre)
  case Nil
  show ?case by simp
next
  case (Cons x xs)
  have IH1: "map (\<lambda>(i, s). slice (pre @ x # xs) s (end_index_of (pre @ x # xs) (ipre @ idx_from P (Suc (length pre)) xs) i))
       (enumerate (length ipre) (idx_from P (Suc (length pre)) xs)) = spec_chunks P xs"
    using Cons.IH [of "pre @ [x]" ipre] by simp
  have IH2: "map (\<lambda>(i, s). slice (pre @ x # xs) s (end_index_of (pre @ x # xs) (ipre @ length pre # idx_from P (Suc (length pre)) xs) i))
       (enumerate (Suc (length ipre)) (idx_from P (Suc (length pre)) xs)) = spec_chunks P xs"
    using Cons.IH [of "pre @ [x]" "ipre @ [length pre]"] by simp
  show ?case
  proof (cases "P x")
    case False
    then show ?thesis using IH1 by simp
  next
    case True
    have e: "end_index_of (pre @ x # xs) (ipre @ length pre # idx_from P (Suc (length pre)) xs) (length ipre)
      = Suc (length pre) + length (takeWhile (\<lambda>y. \<not> P y) xs)"
      using idx_from_next [where P = P and k = "Suc (length pre)" and xs = xs]
      by (simp add: end_index_of_mid split: list.splits)
    have "slice (pre @ x # xs) (length pre) (Suc (length pre) + length (takeWhile (\<lambda>y. \<not> P y) xs))
      = x # takeWhile (\<lambda>y. \<not> P y) xs"
      by (simp add: slice_def takeWhile_eq_take [symmetric])
    with e True IH2 show ?thesis by simp
  qed
qed

lemma chunks_of_spec: "chunks_of L content = spec_chunks (is_heading L) (splitlines content)"
  using chunks_general [where pre = "[]" and xs = "splitlines content" and ipre = "[]" and P = "is_heading L"]
  by (simp add: chunks_of_def split_indices_def idx_from_def is_heading_def Let_def)

lemma spec_chunks_length: "length (spec_chunks P xs) = length (filter P xs)"
  by (induction xs) auto

lemma spec_chunks_heads: "map hd (spec_chunks P xs) = filter P xs"
  by (induction xs) auto

lemma spec_chunks_concat: "concat (spec_chunks P xs) = dropWhile (\<lambda>y. \<not> P y) xs"
  by (induction xs) auto

lemma spec_chunks_shape:
  "c \<in> set (spec_chunks P xs) \<Longrightarrow> \<exists>h r. c = h # r \<and> P h \<and> (\<forall>y \<in> set r. \<not> P y)"
  by (induction xs) (auto split: if_splits dest: set_takeWhileD)

lemma step_2_loop_run:
  "\<forall>(i, s) \<in> set ps. slice lines s (end_index_of lines idxs i) \<noteq> [] \<Longrightarrow>
   step_2_loop outdir_path lines idxs ps st =
     Inr (fst st @ map (\<lambda>c. note_path_of outdir_path (hd c))
                     (map (\<lambda>(i, s). slice lines s (end_index_of lines idxs i)) ps),
          write_notes outdir_path (map (\<lambda>(i, s). slice lines s (end_index_of lines idxs i)) ps) (snd st))"
proof (induction ps arbitrary: st)
  case Nil
  show ?case by (simp add: write_notes_def)
next
  case (Cons p ps)
  obtain i s where p: "p = (i, s)" by (cases p)
  from Cons.prems p obtain h r where c: "slice lines s (end_index_of lines idxs i) = h # r"
    by (cases "slice lines s (end_index_of lines idxs i)") auto
  from Cons.prems have rest: "\<forall>(i, s) \<in> set ps. slice lines s (end_index_of lines idxs i) \<noteq> []"
    by simp
  show ?case
    using Cons.IH [OF rest] by (simp add: p c write_notes_def Let_def)
qed

lemma chunks_of_nonempty: "c \<in> set (chunks_of L content) \<Longrightarrow> c \<noteq> []"
  using spec_chunks_shape [of c "is_heading L" "splitlines content"]
  by (auto simp: chunks_of_spec)

lemma step_2_run:
  assumes "read_text files outfile_path = Some content"
  shows "step_2 files outfile_path outdir_path (Some L) =
           Inr (map (\<lambda>c. note_path_of outdir_path (hd c)) (chunks_of L content),
                write_notes outdir_path (chunks_of L content) files)"
proof (cases "split_indices L (splitlines content) = []")
  case True
  then show ?thesis using assms
    by (simp add: step_2_def chunks_of_def write_notes_def)
next
  case False
  have ne: "\<forall>(i, s) \<in> set (enumerate 0 (split_indices L (splitlines content))).
      slice (splitlines content) s
        (end_index_of (splitlines content) (split_indices L (splitlines content)) i) \<noteq> []"
    using chunks_of_nonempty [of _ L content]
    by (fastforce simp: chunks_of_def Let_def)
  show ?thesis
    using False assms step_2_loop_run [OF ne, of outdir_path "([], files)"]
    by (simp add: step_2_def chunks_of_def Let_def)
qed

lemma is_heading_eq: "is_heading L = startswith (replicate (nat L) HASH @ [SPACE])"
  by (rule ext) (simp add: is_heading_def heading_prefix_def)

subsection \<open>The files of the splitter\<close>

lemma write_notes_snoc:
  "write_notes dir (cs @ [c]) files =
     (write_notes dir cs files)(note_path_of dir (hd c) \<mapsto> note_text c)"
  by (simp add: write_notes_def)

lemma write_notes_Nil: "write_notes dir [] files = files"
  by (simp add: write_notes_def)

lemma write_notes_dom:
  "dom (write_notes dir cs files) = dom files \<union> set (map (\<lambda>c. note_path_of dir (hd c)) cs)"
proof (induction cs rule: rev_induct)
  case Nil
  show ?case by (simp add: write_notes_Nil)
next
  case (snoc c cs)
  have "dom (write_notes dir (cs @ [c]) files)
      = insert (note_path_of dir (hd c)) (dom (write_notes dir cs files))"
    by (simp only: write_notes_snoc dom_fun_upd) simp
  with snoc show ?case by auto
qed

lemma write_notes_other:
  "p \<notin> set (map (\<lambda>c. note_path_of dir (hd c)) cs) \<Longrightarrow> write_notes dir cs files p = files p"
proof (induction cs rule: rev_induct)
  case Nil
  show ?case by (simp add: write_notes_Nil)
next
  case (snoc c cs)
  then have "p \<noteq> note_path_of dir (hd c)"
    and "p \<notin> set (map (\<lambda>c. note_path_of dir (hd c)) cs)" by auto
  with snoc.IH show ?case by (simp add: write_notes_snoc)
qed

text \<open>
  Claim C1, as amended. When the combined document can be read, \<open>step_2\<close> returns
  normally. The list of note paths it returns holds, in order, the note path of each line
  that starts with the heading marker of the level followed by a space, so it has one entry
  for each such line. The files it writes are the paths of the list and no other file
  changes, so the number of note files is the number of distinct paths: at most the number
  of those lines, and that number exactly when no two headings give the same path.
\<close>

theorem step_2_notes_produced:
  assumes "read_text files outfile_path = Some content"
  shows "\<exists>paths files'. step_2 files outfile_path outdir_path (Some L) = Inr (paths, files')
     \<and> paths = map (note_path_of outdir_path)
                 (filter (\<lambda>line. startswith (replicate (nat L) HASH @ [SPACE]) line)
                    (splitlines content))
     \<and> length paths =
         length (filter (\<lambda>line. startswith (replicate (nat L) HASH @ [SPACE]) line)
                   (splitlines content))
     \<and> files' = write_notes outdir_path (chunks_of L content) files
     \<and> dom files' = dom files \<union> set paths
     \<and> (\<forall>p. p \<notin> set paths \<longrightarrow> files' p = files p)
     \<and> card (set paths) \<le> length paths
     \<and> (card (set paths) = length paths \<longleftrightarrow> distinct paths)"
proof -
  let ?cs = "chunks_of L content"
  let ?paths = "map (\<lambda>c. note_path_of outdir_path (hd c)) ?cs"
  let ?files' = "write_notes outdir_path ?cs files"
  have run: "step_2 files outfile_path outdir_path (Some L) = Inr (?paths, ?files')"
    using assms by (rule step_2_run)
  have "?paths = map (note_path_of outdir_path) (map hd ?cs)" by simp
  also have "map hd ?cs = filter (is_heading L) (splitlines content)"
    by (simp add: chunks_of_spec spec_chunks_heads)
  finally have paths: "?paths = map (note_path_of outdir_path)
                 (filter (\<lambda>line. startswith (replicate (nat L) HASH @ [SPACE]) line)
                    (splitlines content))"
    by (simp add: is_heading_eq)
  then have len: "length ?paths =
         length (filter (\<lambda>line. startswith (replicate (nat L) HASH @ [SPACE]) line)
                   (splitlines content))"
    by (simp only: length_map)
  have d: "dom ?files' = dom files \<union> set ?paths" by (rule write_notes_dom)
  have o: "\<forall>p. p \<notin> set ?paths \<longrightarrow> ?files' p = files p"
    using write_notes_other by blast
  have c1: "card (set ?paths) \<le> length ?paths" by (rule card_length)
  have c2: "card (set ?paths) = length ?paths \<longleftrightarrow> distinct ?paths"
    using card_distinct distinct_card by blast
  from run paths len d o c1 c2 show ?thesis by blast
qed

theorem step_2_notes_produced_witness:
  "\<exists>files'. step_2 [ustr ''book.md'' \<mapsto> ustr ''# A\<newline>foo\<newline># B\<newline>bar''] (ustr ''book.md'')
           (ustr ''notes'') (Some 1) = Inr ([ustr ''notes/A.md'', ustr ''notes/B.md''], files')
     \<and> dom files' = {ustr ''book.md'', ustr ''notes/A.md'', ustr ''notes/B.md''}"
proof -
  let ?doc = "ustr ''# A\<newline>foo\<newline># B\<newline>bar''"
  let ?files = "[ustr ''book.md'' \<mapsto> ?doc]"
  have h: "read_text ?files (ustr ''book.md'') = Some ?doc"
    by (simp add: eval_text)
  have f: "filter (\<lambda>line. startswith (replicate (nat 1) HASH @ [SPACE]) line) (splitlines ?doc)
      = [ustr ''# A'', ustr ''# B'']"
    by (simp add: eval_text)
  have p: "note_path_of (ustr ''notes'') (ustr ''# A'') = ustr ''notes/A.md''"
    "note_path_of (ustr ''notes'') (ustr ''# B'') = ustr ''notes/B.md''"
    by (simp_all add: eval_text eval_path)
  from step_2_notes_produced [OF h, of "ustr ''notes''" 1] obtain paths files' where
    r: "step_2 ?files (ustr ''book.md'') (ustr ''notes'') (Some 1) = Inr (paths, files')"
    and ps: "paths = map (note_path_of (ustr ''notes''))
                 (filter (\<lambda>line. startswith (replicate (nat 1) HASH @ [SPACE]) line)
                    (splitlines ?doc))"
    and d: "dom files' = dom ?files \<union> set paths"
    by blast
  from ps have ps': "paths = [ustr ''notes/A.md'', ustr ''notes/B.md'']"
    unfolding f by (simp add: p)
  from d have "dom files' = {ustr ''book.md'', ustr ''notes/A.md'', ustr ''notes/B.md''}"
    unfolding ps' by auto
  with r ps' show ?thesis by blast
qed

text \<open>
  Claim C1 as stated fails: two headings that sanitise to the same name make two entries
  of the list and one note file, so the number of notes produced is not the number of
  heading lines.
\<close>

theorem colliding_headings_one_note:
  "step_2 [ustr ''book.md'' \<mapsto> ustr ''# X?\<newline>a\<newline># X\<newline>b''] (ustr ''book.md'') (ustr ''n'') (Some 1)
     = Inr ([ustr ''n/X.md'', ustr ''n/X.md''],
            [ustr ''book.md'' \<mapsto> ustr ''# X?\<newline>a\<newline># X\<newline>b'',
             ustr ''n/X.md'' \<mapsto> ustr ''# X\<newline>b\<newline>''])
   \<and> length (filter (is_heading 1) (splitlines (ustr ''# X?\<newline>a\<newline># X\<newline>b''))) = 2
   \<and> card (set [ustr ''n/X.md'', ustr ''n/X.md'']) = 1
   \<and> dom [ustr ''book.md'' \<mapsto> ustr ''# X?\<newline>a\<newline># X\<newline>b'',
            ustr ''n/X.md'' \<mapsto> ustr ''# X\<newline>b\<newline>'']
       - dom [ustr ''book.md'' \<mapsto> ustr ''# X?\<newline>a\<newline># X\<newline>b'']
       = {ustr ''n/X.md''}"
proof -
  let ?doc = "ustr ''# X?\<newline>a\<newline># X\<newline>b''"
  have r: "read_text [ustr ''book.md'' \<mapsto> ?doc] (ustr ''book.md'') = Some ?doc"
    by (simp add: eval_text)
  have c: "chunks_of 1 ?doc = [[ustr ''# X?'', ustr ''a''], [ustr ''# X'', ustr ''b'']]"
    by (simp add: eval_text eval_chunks)
  have p: "note_path_of (ustr ''n'') (ustr ''# X?'') = ustr ''n/X.md''"
    "note_path_of (ustr ''n'') (ustr ''# X'') = ustr ''n/X.md''"
    by (simp_all add: eval_text eval_path)
  have t: "note_text [ustr ''# X?'', ustr ''a''] = ustr ''# X?\<newline>a\<newline>''"
    "note_text [ustr ''# X'', ustr ''b''] = ustr ''# X\<newline>b\<newline>''"
    by (simp_all add: eval_text eval_path)
  have s2: "step_2 [ustr ''book.md'' \<mapsto> ?doc] (ustr ''book.md'') (ustr ''n'') (Some 1)
     = Inr ([ustr ''n/X.md'', ustr ''n/X.md''],
            [ustr ''book.md'' \<mapsto> ?doc, ustr ''n/X.md'' \<mapsto> ustr ''# X\<newline>b\<newline>''])"
    unfolding step_2_run [OF r] c by (simp add: write_notes_def p t)
  have n: "length (filter (is_heading 1) (splitlines ?doc)) = 2"
    by (simp add: eval_text)
  have k: "card (set [ustr ''n/X.md'', ustr ''n/X.md'']) = 1" by simp
  have d: "dom [ustr ''book.md'' \<mapsto> ?doc, ustr ''n/X.md'' \<mapsto> ustr ''# X\<newline>b\<newline>'']
       - dom [ustr ''book.md'' \<mapsto> ?doc] = {ustr ''n/X.md''}"
    by (auto simp: ustr_def)
  from s2 n k d show ?thesis by (simp only: simp_thms)
qed

lemma idx_from_set:
  "i \<in> set (idx_from P k xs) \<longleftrightarrow> k \<le> i \<and> i - k < length xs \<and> P (xs ! (i - k))"
proof (induction xs arbitrary: k)
  case Nil
  show ?case by simp
next
  case (Cons x xs)
  show ?case
  proof (cases "i = k")
    case True
    then show ?thesis using Cons.IH [of "Suc k"] by auto
  next
    case False
    then have "k \<le> i \<Longrightarrow> i - k = Suc (i - Suc k)" by simp
    then show ?thesis using False Cons.IH [of "Suc k"] by auto
  qed
qed

lemma split_indices_iff:
  "i \<in> set (split_indices L lines) \<longleftrightarrow> i < length lines \<and> is_heading L (lines ! i)"
  using idx_from_set [of i "is_heading L" 0 lines]
  by (simp add: split_indices_def idx_from_def is_heading_def)

lemma deeper_not_heading:
  assumes "nat L < n" "startswith (replicate n HASH) line"
  shows "\<not> is_heading L line"
proof
  assume "is_heading L line"
  then have h: "take (Suc (nat L)) line = replicate (nat L) HASH @ [SPACE]"
    by (simp add: is_heading_def heading_prefix_def startswith_def)
  from assms(2) have d: "take n line = replicate n HASH"
    by (simp add: startswith_def)
  have "take (Suc (nat L)) line ! nat L = line ! nat L" by simp
  with h have 1: "line ! nat L = SPACE" by (simp add: nth_append)
  have "take n line ! nat L = line ! nat L" using assms(1) by simp
  with d assms(1) have 2: "line ! nat L = HASH" by simp
  from 1 2 show False by simp
qed

text \<open>
  Claim C2. A line is a split boundary exactly when it starts with the literal prefix of
  the level followed by a space; a line that starts with a longer run of markers is no
  boundary; and the first lines of the chunks are the lines with that prefix, in order.
\<close>

theorem deeper_heading_is_no_boundary:
  "(i \<in> set (split_indices L lines) \<longleftrightarrow>
      i < length lines \<and> startswith (replicate (nat L) HASH @ [SPACE]) (lines ! i))
   \<and> (i < length lines \<and> nat L < n \<and> startswith (replicate n HASH) (lines ! i)
        \<longrightarrow> i \<notin> set (split_indices L lines))
   \<and> map hd (chunks_of L content) =
        filter (\<lambda>line. startswith (replicate (nat L) HASH @ [SPACE]) line) (splitlines content)"
  using deeper_not_heading [of L n "lines ! i"] split_indices_iff [of i L lines]
    spec_chunks_heads [of "is_heading L" "splitlines content"]
  by (auto simp: chunks_of_spec is_heading_eq)

theorem deeper_heading_is_no_boundary_witness:
  "1 < length [ustr ''# A'', ustr ''## B''] \<and> nat 1 < 2
   \<and> startswith (replicate 2 HASH) ([ustr ''# A'', ustr ''## B''] ! 1)
   \<and> 1 \<notin> set (split_indices 1 [ustr ''# A'', ustr ''## B''])
   \<and> 0 \<in> set (split_indices 1 [ustr ''# A'', ustr ''## B''])"
proof -
  have h: "1 < length [ustr ''# A'', ustr ''## B''] \<and> nat 1 < 2
   \<and> startswith (replicate 2 HASH) ([ustr ''# A'', ustr ''## B''] ! 1)"
    by (simp add: eval_text numeral_2_eq_2)
  have g: "0 < length [ustr ''# A'', ustr ''## B'']
     \<and> startswith (replicate (nat 1) HASH @ [SPACE]) ([ustr ''# A'', ustr ''## B''] ! 0)"
    by (simp add: eval_text)
  from deeper_heading_is_no_boundary [of 1 1 "[ustr ''# A'', ustr ''## B'']" 2 "[]"]
    deeper_heading_is_no_boundary [of 0 1 "[ustr ''# A'', ustr ''## B'']" 2 "[]"] h g
  show ?thesis by blast
qed

text \<open>
  Claim C3. When the combined document can be read, \<open>step_2\<close> writes the notes of a list
  of chunks, in order, of which the following holds: the lines of the document are the
  lines before the first heading, which belong to no chunk, followed by the chunks one after
  the other; each chunk starts with a heading line and holds no other heading line.
\<close>

theorem chunks_partition:
  assumes "read_text files outfile_path = Some content"
  shows "\<exists>cs. step_2 files outfile_path outdir_path (Some L) =
             Inr (map (\<lambda>c. note_path_of outdir_path (hd c)) cs, write_notes outdir_path cs files)
     \<and> cs = chunks_of L content
     \<and> splitlines content =
          takeWhile (\<lambda>line. \<not> is_heading L line) (splitlines content) @ concat cs
     \<and> (\<forall>c \<in> set cs.
          \<exists>h r. c = h # r \<and> is_heading L h \<and> (\<forall>line \<in> set r. \<not> is_heading L line))"
proof -
  have 1: "step_2 files outfile_path outdir_path (Some L) =
             Inr (map (\<lambda>c. note_path_of outdir_path (hd c)) (chunks_of L content),
                  write_notes outdir_path (chunks_of L content) files)"
    using assms by (rule step_2_run)
  have 2: "splitlines content =
          takeWhile (\<lambda>line. \<not> is_heading L line) (splitlines content)
            @ concat (chunks_of L content)"
    by (simp add: chunks_of_spec spec_chunks_concat)
  have 3: "\<forall>c \<in> set (chunks_of L content).
          \<exists>h r. c = h # r \<and> is_heading L h \<and> (\<forall>line \<in> set r. \<not> is_heading L line)"
    using spec_chunks_shape [of _ "is_heading L" "splitlines content"]
    by (simp add: chunks_of_spec)
  from 1 2 3 show ?thesis by blast
qed

theorem chunks_partition_witness:
  "\<exists>files'. step_2 [ustr ''book.md'' \<mapsto> ustr ''x\<newline># A\<newline>foo\<newline># B''] (ustr ''book.md'')
        (ustr ''notes'') (Some 1) = Inr ([ustr ''notes/A.md'', ustr ''notes/B.md''], files')
     \<and> files' (ustr ''notes/A.md'') = Some (ustr ''# A\<newline>foo\<newline>'')
     \<and> files' (ustr ''notes/B.md'') = Some (ustr ''# B\<newline>'')
     \<and> splitlines (ustr ''x\<newline># A\<newline>foo\<newline># B'')
          = [ustr ''x''] @ concat [[ustr ''# A'', ustr ''foo''], [ustr ''# B'']]"
proof -
  let ?doc = "ustr ''x\<newline># A\<newline>foo\<newline># B''"
  let ?files = "[ustr ''book.md'' \<mapsto> ?doc]"
  have h: "read_text ?files (ustr ''book.md'') = Some ?doc"
    by (simp add: eval_text)
  have c: "chunks_of 1 ?doc = [[ustr ''# A'', ustr ''foo''], [ustr ''# B'']]"
    by (simp add: eval_text eval_chunks)
  have p: "note_path_of (ustr ''notes'') (ustr ''# A'') = ustr ''notes/A.md''"
    "note_path_of (ustr ''notes'') (ustr ''# B'') = ustr ''notes/B.md''"
    by (simp_all add: eval_text eval_path)
  have t: "note_text [ustr ''# A'', ustr ''foo''] = ustr ''# A\<newline>foo\<newline>''"
    "note_text [ustr ''# B''] = ustr ''# B\<newline>''"
    by (simp_all add: eval_text eval_path)
  have tw: "takeWhile (\<lambda>line. \<not> is_heading 1 line) (splitlines ?doc) = [ustr ''x'']"
    by (simp add: eval_text)
  from chunks_partition [OF h, of "ustr ''notes''" 1] obtain cs where
    r: "step_2 ?files (ustr ''book.md'') (ustr ''notes'') (Some 1) =
             Inr (map (\<lambda>c. note_path_of (ustr ''notes'') (hd c)) cs,
                  write_notes (ustr ''notes'') cs ?files)"
    and e: "cs = chunks_of 1 ?doc"
    and l: "splitlines ?doc = takeWhile (\<lambda>line. \<not> is_heading 1 line) (splitlines ?doc) @ concat cs"
    by blast
  from e c have cs: "cs = [[ustr ''# A'', ustr ''foo''], [ustr ''# B'']]" by simp
  have n: "ustr ''notes/A.md'' \<noteq> ustr ''notes/B.md''" by (simp add: ustr_def)
  from r have "step_2 ?files (ustr ''book.md'') (ustr ''notes'') (Some 1) =
      Inr ([ustr ''notes/A.md'', ustr ''notes/B.md''],
           ?files(ustr ''notes/A.md'' \<mapsto> ustr ''# A\<newline>foo\<newline>'',
                  ustr ''notes/B.md'' \<mapsto> ustr ''# B\<newline>''))"
    unfolding cs by (simp add: write_notes_def p t)
  moreover have "(?files(ustr ''notes/A.md'' \<mapsto> ustr ''# A\<newline>foo\<newline>'',
                  ustr ''notes/B.md'' \<mapsto> ustr ''# B\<newline>'')) (ustr ''notes/A.md'')
        = Some (ustr ''# A\<newline>foo\<newline>'')"
    using n by simp
  moreover have "(?files(ustr ''notes/A.md'' \<mapsto> ustr ''# A\<newline>foo\<newline>'',
                  ustr ''notes/B.md'' \<mapsto> ustr ''# B\<newline>'')) (ustr ''notes/B.md'')
        = Some (ustr ''# B\<newline>'')"
    by simp
  moreover from l have "splitlines ?doc
          = [ustr ''x''] @ concat [[ustr ''# A'', ustr ''foo''], [ustr ''# B'']]"
    unfolding tw cs .
  ultimately show ?thesis by blast
qed

lemma no_heading_no_indices:
  "\<forall>line \<in> set lines. \<not> is_heading L line \<Longrightarrow> split_indices L lines = []"
proof (rule ccontr)
  assume a: "\<forall>line \<in> set lines. \<not> is_heading L line" and "split_indices L lines \<noteq> []"
  then obtain i where "i \<in> set (split_indices L lines)"
    by (cases "split_indices L lines") auto
  then have "i < length lines" "is_heading L (lines ! i)"
    by (simp_all add: split_indices_iff)
  with a show False by (meson nth_mem)
qed

text \<open>
  Claim C8. When the document has no heading line of the level, \<open>step_2\<close> returns the
  empty list and leaves the files as they are, and \<open>main\<close> returns normally at that
  point: no file is changed and no template is read.
\<close>

theorem no_heading_stops_pipeline:
  assumes "\<not> only_step_1 a"
    and "read_text (files_after_step_1 step_1 a files) (outfile a) = Some content"
    and "heading_level a = Some L"
    and "\<forall>line \<in> set (splitlines content). \<not> is_heading L line"
  shows "step_2 (files_after_step_1 step_1 a files) (outfile a) (outdir a) (heading_level a)
           = Inr ([], files_after_step_1 step_1 a files)
         \<and> main step_1 a files = Inr (NoNotes, files_after_step_1 step_1 a files)"
proof -
  have "split_indices L (splitlines content) = []"
    using assms(4) by (rule no_heading_no_indices)
  then have s: "step_2 (files_after_step_1 step_1 a files) (outfile a) (outdir a) (heading_level a)
           = Inr ([], files_after_step_1 step_1 a files)"
    using assms(2,3) by (simp add: step_2_def)
  with assms(1) show ?thesis by (simp add: main_def)
qed

theorem no_heading_stops_pipeline_witness:
  "main (\<lambda>e a out files. files) example_args [ustr ''book.md'' \<mapsto> ustr ''intro\<newline>## Sub'']
     = Inr (NoNotes, [ustr ''book.md'' \<mapsto> ustr ''intro\<newline>## Sub''])"
proof -
  let ?files = "[ustr ''book.md'' \<mapsto> ustr ''intro\<newline>## Sub'']"
  let ?step_1 = "\<lambda>(e::ustring) (a::ustring) (out::ustring) (files::fs). files"
  have 0: "files_after_step_1 ?step_1 example_args ?files = ?files"
    by (simp add: files_after_step_1_def)
  have 1: "\<not> only_step_1 example_args" by (simp add: example_args_def)
  have 2: "read_text (files_after_step_1 ?step_1 example_args ?files) (outfile example_args)
     = Some (ustr ''intro\<newline>## Sub'')"
    unfolding 0 by (simp add: example_args_def eval_text)
  have 3: "heading_level example_args = Some 1" by (simp add: example_args_def)
  have 4: "\<forall>line \<in> set (splitlines (ustr ''intro\<newline>## Sub'')). \<not> is_heading 1 line"
    by (simp add: eval_text)
  from no_heading_stops_pipeline [OF 1 2 3 4] 0 show ?thesis by simp
qed

section \<open>The text of a note\<close>

lemma ends_in_one_newline_snoc:
  "ends_in_one_newline (s @ [NL]) \<longleftrightarrow> s = [] \<or> last s \<noteq> NL"
  by (cases s rule: rev_cases) (auto simp: ends_in_one_newline_def endswith_def)

lemma str_join_snoc: "xs \<noteq> [] \<Longrightarrow> str_join sep (xs @ [x]) = str_join sep xs @ sep @ x"
  by (induction sep xs rule: str_join.induct) auto

lemma splitlines_from_no_break:
  "\<forall>c \<in> set cur. \<not> is_linebreak c \<Longrightarrow> l \<in> set (splitlines_from cur s) \<Longrightarrow>
   \<forall>c \<in> set l. \<not> is_linebreak c"
proof (induction cur s rule: splitlines_from.induct)
  case (1 cur)
  then show ?case by (simp split: if_splits)
next
  case (2 cur c cs)
  note p1 = "2.prems"(1)
  note p2 = "2.prems"(2) [unfolded splitlines_from.simps(2) [of cur c cs]]
  show ?case
  proof (cases "c = CR")
    case True
    note cr = this
    show ?thesis
    proof (cases cs)
      case Nil
      from p2 have "l = cur" by (simp add: cr Nil)
      with p1 show ?thesis by simp
    next
      case (Cons d ds)
      show ?thesis
      proof (cases "d = NL")
        case True
        from p2 have "l = cur \<or> l \<in> set (splitlines_from [] ds)"
          by (simp add: cr Cons True del: splitlines_from.simps)
        with "2.IH"(2) [OF cr Cons True] p1 show ?thesis by auto
      next
        case False
        from p2 have "l = cur \<or> l \<in> set (splitlines_from [] cs)"
          by (simp add: cr Cons False del: splitlines_from.simps)
        with "2.IH"(3) [OF cr Cons False] p1 show ?thesis by auto
      qed
    qed
  next
    case False
    note ncr = this
    show ?thesis
    proof (cases "is_linebreak c")
      case True
      from p2 have "l = cur \<or> l \<in> set (splitlines_from [] cs)"
        by (simp add: ncr True del: splitlines_from.simps)
      with "2.IH"(4) [OF ncr True] p1 show ?thesis by auto
    next
      case False
      have q: "\<forall>c \<in> set (cur @ [c]). \<not> is_linebreak c" using p1 False by simp
      from p2 have "l \<in> set (splitlines_from (cur @ [c]) cs)"
        by (simp add: ncr False del: splitlines_from.simps)
      with "2.IH"(5) [OF ncr False q] show ?thesis by simp
    qed
  qed
qed

lemma splitlines_no_newline: "l \<in> set (splitlines s) \<Longrightarrow> NL \<notin> set l"
  using splitlines_from_no_break [of "[]" l s]
  by (auto simp: splitlines_def is_linebreak_def)

lemma chunk_lines_subset:
  assumes "c \<in> set (chunks_of L content)"
  shows "set c \<subseteq> set (splitlines content)"
proof -
  have "set c \<subseteq> set (concat (chunks_of L content))" using assms by auto
  also have "\<dots> \<subseteq> set (splitlines content)"
    by (simp add: chunks_of_spec spec_chunks_concat set_dropWhileD subsetI)
  finally show ?thesis .
qed

lemma heading_nonempty: "is_heading L h \<Longrightarrow> h \<noteq> []"
  by (auto simp: is_heading_def heading_prefix_def startswith_def)

lemma note_text_one_newline:
  assumes "c \<in> set (chunks_of L content)"
  shows "ends_in_one_newline (note_text c) \<longleftrightarrow> last c \<noteq> []"
proof -
  from assms obtain h r where c: "c = h # r" and h: "is_heading L h"
    using spec_chunks_shape [of c "is_heading L" "splitlines content"]
    by (auto simp: chunks_of_spec)
  have nl: "\<And>l. l \<in> set c \<Longrightarrow> NL \<notin> set l"
    using chunk_lines_subset [OF assms] splitlines_no_newline by blast
  show ?thesis
  proof (cases r rule: rev_cases)
    case Nil
    have "h \<noteq> []" using h by (rule heading_nonempty)
    moreover have "NL \<notin> set h" using nl [of h] c by simp
    ultimately have "last h \<noteq> NL" using last_in_set by metis
    with Nil c \<open>h \<noteq> []\<close> show ?thesis
      by (simp add: note_text_def ends_in_one_newline_snoc)
  next
    case (snoc b l)
    then have "c = (h # b) @ [l]" using c by simp
    then have j: "str_join [NL] c = str_join [NL] (h # b) @ [NL] @ l"
      using str_join_snoc [of "h # b" "[NL]" l] by simp
    have "l \<in> set c" using snoc c by simp
    then have "NL \<notin> set l" by (rule nl)
    then have l: "l \<noteq> [] \<Longrightarrow> last l \<noteq> NL" using last_in_set by metis
    have "note_text c = (str_join [NL] (h # b) @ [NL] @ l) @ [NL]"
      by (simp add: note_text_def j)
    then have "ends_in_one_newline (note_text c)
        \<longleftrightarrow> last (str_join [NL] (h # b) @ [NL] @ l) \<noteq> NL"
      by (simp only: ends_in_one_newline_snoc) simp
    also have "\<dots> \<longleftrightarrow> l \<noteq> []" using l by (cases "l = []") simp_all
    also have "\<dots> \<longleftrightarrow> last c \<noteq> []" using snoc c by simp
    finally show ?thesis .
  qed
qed

text \<open>
  Claim C7, as amended. \<open>step_2\<close> writes, for each chunk in order, the lines of the
  chunk joined by newlines and followed by one newline. That text ends in exactly one
  newline when the last line of the chunk is not empty, and in more than one when it is
  empty.
\<close>

theorem note_text_written:
  assumes "read_text files outfile_path = Some content"
  shows "step_2 files outfile_path outdir_path (Some L) =
           Inr (map (\<lambda>c. note_path_of outdir_path (hd c)) (chunks_of L content),
                write_notes outdir_path (chunks_of L content) files)
         \<and> (\<forall>c \<in> set (chunks_of L content).
               note_text c = str_join [NL] c @ [NL]
               \<and> (ends_in_one_newline (note_text c) \<longleftrightarrow> last c \<noteq> []))"
proof (intro conjI ballI)
  show "step_2 files outfile_path outdir_path (Some L) =
           Inr (map (\<lambda>c. note_path_of outdir_path (hd c)) (chunks_of L content),
                write_notes outdir_path (chunks_of L content) files)"
    using assms by (rule step_2_run)
next
  fix c assume "c \<in> set (chunks_of L content)"
  show "note_text c = str_join [NL] c @ [NL]" by (simp only: note_text_def)
next
  fix c assume "c \<in> set (chunks_of L content)"
  then show "ends_in_one_newline (note_text c) \<longleftrightarrow> last c \<noteq> []"
    by (rule note_text_one_newline)
qed

theorem note_text_written_witness:
  "read_text [ustr ''book.md'' \<mapsto> ustr ''# A\<newline>\<newline># B''] (ustr ''book.md'')
     = Some (ustr ''# A\<newline>\<newline># B'')
   \<and> [ustr ''# B''] \<in> set (chunks_of 1 (ustr ''# A\<newline>\<newline># B''))
   \<and> ends_in_one_newline (note_text [ustr ''# B''])"
proof -
  have r: "read_text [ustr ''book.md'' \<mapsto> ustr ''# A\<newline>\<newline># B''] (ustr ''book.md'')
      = Some (ustr ''# A\<newline>\<newline># B'')"
    by (simp add: eval_text)
  have m: "[ustr ''# B''] \<in> set (chunks_of 1 (ustr ''# A\<newline>\<newline># B''))"
    by (simp add: eval_text eval_chunks)
  from note_text_written [OF r, of "ustr ''notes''" 1] m
  have "ends_in_one_newline (note_text [ustr ''# B'']) \<longleftrightarrow> last [ustr ''# B''] \<noteq> []"
    by blast
  with r m show ?thesis by (simp add: ustr_def)
qed

text \<open>
  Claim C7 as stated fails: a chunk that ends with an empty line, as the first chunk of
  \<open># A\<close>, an empty line, \<open># B\<close>, is written with two newlines at its end.
\<close>

theorem note_text_two_newlines:
  "step_2 [ustr ''book.md'' \<mapsto> ustr ''# A\<newline>\<newline># B''] (ustr ''book.md'') (ustr ''notes'') (Some 1)
     = Inr ([ustr ''notes/A.md'', ustr ''notes/B.md''],
            [ustr ''book.md'' \<mapsto> ustr ''# A\<newline>\<newline># B'',
             ustr ''notes/A.md'' \<mapsto> ustr ''# A\<newline>\<newline>'',
             ustr ''notes/B.md'' \<mapsto> ustr ''# B\<newline>''])
   \<and> \<not> ends_in_one_newline (ustr ''# A\<newline>\<newline>'')"
proof -
  have r: "read_text [ustr ''book.md'' \<mapsto> ustr ''# A\<newline>\<newline># B''] (ustr ''book.md'')
      = Some (ustr ''# A\<newline>\<newline># B'')"
    by (simp add: eval_text)
  have c: "chunks_of 1 (ustr ''# A\<newline>\<newline># B'') = [[ustr ''# A'', []], [ustr ''# B'']]"
    by (simp add: eval_text eval_chunks)
  have p: "note_path_of (ustr ''notes'') (ustr ''# A'') = ustr ''notes/A.md''"
    "note_path_of (ustr ''notes'') (ustr ''# B'') = ustr ''notes/B.md''"
    by (simp_all add: eval_text eval_path)
  have t: "note_text [ustr ''# A'', []] = ustr ''# A\<newline>\<newline>''"
    "note_text [ustr ''# B''] = ustr ''# B\<newline>''"
    by (simp_all add: eval_text eval_path)
  have e: "\<not> ends_in_one_newline (ustr ''# A\<newline>\<newline>'')"
    by (simp add: eval_text ends_in_one_newline_def)
  show ?thesis
    unfolding step_2_run [OF r] c using e by (simp add: write_notes_def p t)
qed

section \<open>The metadata injector\<close>

lemma un_Cons: "c \<noteq> CR \<Longrightarrow> universal_newlines (c # s) = c # universal_newlines s"
  by (cases s) simp_all

lemma un_no_CR: "CR \<notin> set (universal_newlines s)"
  by (induction s rule: universal_newlines.induct) simp_all

lemma un_append: "CR \<notin> set a \<Longrightarrow> universal_newlines (a @ b) = a @ universal_newlines b"
  by (induction a) (simp_all add: un_Cons)

lemma un_id: "CR \<notin> set s \<Longrightarrow> universal_newlines s = s"
  using un_append [of s "[]"] by simp

lemma strip_subset: "set (strip s) \<subseteq> set s"
proof
  fix x assume "x \<in> set (strip s)"
  then have "x \<in> set (dropWhile is_space (rev (dropWhile is_space s)))"
    by (simp add: strip_def)
  then have "x \<in> set (rev (dropWhile is_space s))" by (rule set_dropWhileD)
  then have "x \<in> set (dropWhile is_space s)" by simp
  then show "x \<in> set s" by (rule set_dropWhileD)
qed

lemma step_3_loop_run:
  assumes "\<forall>p \<in> set ns. endswith (ustr ''.md'') (lower p) \<longrightarrow> files p \<noteq> None"
  shows "step_3_loop yaml ns files =
    Inr (\<lambda>p. if endswith (ustr ''.md'') (lower p)
              then map_option (prepend_once yaml ^^ count_list ns p)
                     (files p)
              else files p)"
  using assms
proof (induction ns arbitrary: files)
  case Nil
  show ?case by (auto simp: option.map_id0)
next
  case (Cons q rest)
  show ?case
  proof (cases "endswith (ustr ''.md'') (lower q)")
    case False
    have "\<forall>p \<in> set rest. endswith (ustr ''.md'') (lower p) \<longrightarrow> files p \<noteq> None"
      using Cons.prems by simp
    from Cons.IH [OF this] False show ?thesis by auto
  next
    case True
    with Cons.prems obtain c where c: "files q = Some c" by auto
    let ?f = "prepend_once yaml"
    have pre: "\<forall>p \<in> set rest. endswith (ustr ''.md'') (lower p) \<longrightarrow>
        (files(q \<mapsto> ?f c)) p \<noteq> None"
      using Cons.prems by simp
    have step: "step_3_loop yaml (q # rest) files = step_3_loop yaml rest (files(q \<mapsto> ?f c))"
      using True c by (simp add: read_text_def prepend_once_def)
    have sw: "(?f ^^ count_list rest q) (?f c) = (?f ^^ Suc (count_list rest q)) c"
      by (simp only: funpow_swap1 funpow.simps o_apply)
    have "(\<lambda>p. if endswith (ustr ''.md'') (lower p)
              then map_option (?f ^^ count_list rest p) ((files(q \<mapsto> ?f c)) p)
              else (files(q \<mapsto> ?f c)) p)
        = (\<lambda>p. if endswith (ustr ''.md'') (lower p)
              then map_option (?f ^^ count_list (q # rest) p) (files p)
              else files p)"
    proof (rule ext)
      fix p
      show "(if endswith (ustr ''.md'') (lower p)
              then map_option (?f ^^ count_list rest p) ((files(q \<mapsto> ?f c)) p)
              else (files(q \<mapsto> ?f c)) p)
        = (if endswith (ustr ''.md'') (lower p)
              then map_option (?f ^^ count_list (q # rest) p) (files p)
              else files p)"
      proof (cases "p = q")
        case True
        then show ?thesis
          using \<open>endswith (ustr ''.md'') (lower q)\<close> c sw
          by (simp del: funpow.simps)
      next
        case False
        then show ?thesis by simp
      qed
    qed
    then show ?thesis
      unfolding step Cons.IH [OF pre] by (simp only:)
  qed
qed

lemma count_list_distinct:
  "distinct xs \<Longrightarrow> count_list xs x = (if x \<in> set xs then 1 else 0)"
  by (induction xs) auto

text \<open>
  Claim C4, as amended. For a list of distinct notes, \<open>step_3\<close> replaces the content of
  each note whose lower-cased path ends in \<open>.md\<close> by the template with the white space
  at its two ends removed, an empty line and the content of the note as read; it leaves
  every other file as it is.
\<close>

theorem metadata_prepended:
  assumes "read_text files metadata_path = Some template"
    and "distinct note_files"
    and "\<forall>p \<in> set note_files. endswith (ustr ''.md'') (lower p) \<longrightarrow> files p \<noteq> None"
  shows "\<exists>files'. step_3 files note_files metadata_path = Inr files'
     \<and> (\<forall>p. files' p =
          (if p \<in> set note_files \<and> endswith (ustr ''.md'') (lower p)
           then map_option (\<lambda>old. strip template @ [NL, NL] @ old) (read_text files p)
           else files p))"
proof -
  have "step_3 files note_files metadata_path = step_3_loop (strip template) note_files files"
    using assms(1) by (simp add: step_3_def)
  also note step_3_loop_run [OF assms(3), of "strip template"]
  finally have run: "step_3 files note_files metadata_path =
      Inr (\<lambda>p. if endswith (ustr ''.md'') (lower p)
              then map_option (prepend_once (strip template) ^^ count_list note_files p) (files p)
              else files p)" .
  have "\<And>p. (if endswith (ustr ''.md'') (lower p)
              then map_option (prepend_once (strip template) ^^ count_list note_files p) (files p)
              else files p)
      = (if p \<in> set note_files \<and> endswith (ustr ''.md'') (lower p)
           then map_option (\<lambda>old. strip template @ [NL, NL] @ old) (read_text files p)
           else files p)"
    using count_list_distinct [OF assms(2)]
    by (auto simp: read_text_def prepend_once_def option.map_comp o_def option.map_id0 option.map_ident)
  with run show ?thesis by simp
qed

theorem metadata_prepended_witness:
  "step_3 [ustr ''m.yml'' \<mapsto> ustr ''t: b\<newline>'', ustr ''n/A.md'' \<mapsto> ustr ''# A\<newline>'']
      [ustr ''n/A.md''] (ustr ''m.yml'')
    = Inr [ustr ''m.yml'' \<mapsto> ustr ''t: b\<newline>'', ustr ''n/A.md'' \<mapsto> ustr ''t: b\<newline>\<newline># A\<newline>'']"
proof -
  let ?files = "[ustr ''m.yml'' \<mapsto> ustr ''t: b\<newline>'', ustr ''n/A.md'' \<mapsto> ustr ''# A\<newline>'']"
  have 1: "read_text ?files (ustr ''m.yml'') = Some (ustr ''t: b\<newline>'')"
    by (simp add: eval_step_3)
  have 2: "distinct [ustr ''n/A.md'']" by simp
  have 3: "\<forall>p \<in> set [ustr ''n/A.md'']. endswith (ustr ''.md'') (lower p) \<longrightarrow> ?files p \<noteq> None"
    by simp
  from metadata_prepended [OF 1 2 3] obtain files' where
    r: "step_3 ?files [ustr ''n/A.md''] (ustr ''m.yml'') = Inr files'"
    and f: "\<And>p. files' p =
          (if p \<in> set [ustr ''n/A.md''] \<and> endswith (ustr ''.md'') (lower p)
           then map_option (\<lambda>old. strip (ustr ''t: b\<newline>'') @ [NL, NL] @ old) (read_text ?files p)
           else ?files p)"
    by blast
  have "files' = [ustr ''m.yml'' \<mapsto> ustr ''t: b\<newline>'', ustr ''n/A.md'' \<mapsto> ustr ''t: b\<newline>\<newline># A\<newline>'']"
  proof (rule ext)
    fix p show "files' p = [ustr ''m.yml'' \<mapsto> ustr ''t: b\<newline>'', ustr ''n/A.md'' \<mapsto> ustr ''t: b\<newline>\<newline># A\<newline>''] p"
      unfolding f by (simp add: eval_step_3)
  qed
  with r show ?thesis by simp
qed

text \<open>
  Claim C4 as stated fails: the template is stripped before it is used, so a template that
  ends in a newline is not prepended byte for byte.
\<close>

theorem metadata_template_stripped:
  "step_3 [ustr ''m.yml'' \<mapsto> ustr ''t: b\<newline>'', ustr ''n/A.md'' \<mapsto> ustr ''# A\<newline>'']
      [ustr ''n/A.md''] (ustr ''m.yml'')
    = Inr [ustr ''m.yml'' \<mapsto> ustr ''t: b\<newline>'', ustr ''n/A.md'' \<mapsto> ustr ''t: b\<newline>\<newline># A\<newline>'']
   \<and> ustr ''t: b\<newline>\<newline># A\<newline>'' \<noteq> ustr ''t: b\<newline>'' @ [NL, NL] @ ustr ''# A\<newline>''"
  by (simp add: eval_step_3)

section \<open>The resource appender\<close>

lemma step_4_loop_run:
  assumes "\<forall>i \<in> set js. files (ns ! i) \<noteq> None"
  shows "step_4_loop base ns js files =
    Inr (\<lambda>p. map_option (\<lambda>old. foldl (append_once base ns) old (filter (\<lambda>i. ns ! i = p) js))
               (files p))"
  using assms
proof (induction js arbitrary: files)
  case Nil
  show ?case by (simp add: option.map_ident)
next
  case (Cons i rest)
  from Cons.prems obtain c where c: "files (ns ! i) = Some c" by auto
  let ?new = "append_once base ns c i"
  have pre: "\<forall>j \<in> set rest. (files(ns ! i \<mapsto> ?new)) (ns ! j) \<noteq> None"
    using Cons.prems by simp
  have step: "step_4_loop base ns (i # rest) files = step_4_loop base ns rest (files(ns ! i \<mapsto> ?new))"
    using c by (simp add: read_text_def append_once_def)
  have "(\<lambda>p. map_option (\<lambda>old. foldl (append_once base ns) old (filter (\<lambda>j. ns ! j = p) rest))
               ((files(ns ! i \<mapsto> ?new)) p))
      = (\<lambda>p. map_option (\<lambda>old. foldl (append_once base ns) old (filter (\<lambda>j. ns ! j = p) (i # rest)))
               (files p))"
  proof (rule ext)
    fix p
    show "map_option (\<lambda>old. foldl (append_once base ns) old (filter (\<lambda>j. ns ! j = p) rest))
               ((files(ns ! i \<mapsto> ?new)) p)
      = map_option (\<lambda>old. foldl (append_once base ns) old (filter (\<lambda>j. ns ! j = p) (i # rest)))
               (files p)"
      using c by (cases "p = ns ! i") auto
  qed
  then show ?case unfolding step Cons.IH [OF pre] by (simp only:)
qed

lemma str_replace_last:
  "old \<noteq> [] \<Longrightarrow> new \<noteq> [] \<Longrightarrow> s \<noteq> [] \<Longrightarrow>
   str_replace old new s \<noteq> []
   \<and> (last (str_replace old new s) = last s \<or> last (str_replace old new s) = last new)"
proof (induction old new s rule: str_replace.induct)
  case (1 old new)
  then show ?case by simp
next
  case (2 old new c cs)
  note ne = "2.prems"(1) and nn = "2.prems"(2)
  show ?case
  proof (cases "startswith old (c # cs)")
    case True
    let ?rest = "drop (length old) (c # cs)"
    have r: "str_replace old new (c # cs) = new @ str_replace old new ?rest"
      using ne True by (simp del: str_replace.simps(1))
    show ?thesis
    proof (cases "?rest = []")
      case True
      then have "str_replace old new ?rest = []" using ne by simp
      with r nn show ?thesis by simp
    next
      case False
      have l: "last ?rest = last (c # cs)" using False by simp
      from "2.IH"(2) [OF ne True ne nn False] r nn l show ?thesis by auto
    qed
  next
    case False
    have r: "str_replace old new (c # cs) = c # str_replace old new cs"
      using ne False by simp
    show ?thesis
    proof (cases "cs = []")
      case True
      with r ne show ?thesis by simp
    next
      case nonempty: False
      from "2.IH"(3) [OF ne False ne nn nonempty] r nonempty show ?thesis by auto
    qed
  qed
qed

lemma strip_last: "strip t \<noteq> [] \<Longrightarrow> \<not> is_space (last (strip t))"
proof -
  assume a: "strip t \<noteq> []"
  let ?d = "dropWhile is_space (rev (dropWhile is_space t))"
  from a have d: "?d \<noteq> []" by (simp add: strip_def)
  have "last (strip t) = hd ?d" using d by (simp add: strip_def last_rev)
  with hd_dropWhile [OF d] show ?thesis by simp
qed

lemma next_note_link_last:
  "next_note_link ns i \<noteq> [] \<and> last (next_note_link ns i) \<noteq> NL"
  by (simp add: next_note_link_def ustr_def)

lemma placeholder_nonempty: "placeholder \<noteq> []"
  by (simp add: placeholder_def ustr_def)

lemma resources_one_newline:
  assumes "strip t \<noteq> []"
  shows "ends_in_one_newline (old @ [NL, NL] @ resources_content (strip t) ns i @ [NL])"
proof -
  let ?rc = "resources_content (strip t) ns i"
  have "\<not> is_space (last (strip t))" using assms by (rule strip_last)
  then have 1: "last (strip t) \<noteq> NL" by (auto simp: is_space_def)
  from str_replace_last [OF placeholder_nonempty _ assms, of "next_note_link ns i"]
    next_note_link_last [of ns i] 1
  have "?rc \<noteq> []" "last ?rc \<noteq> NL"
    by (auto simp: resources_content_def)
  then have "last (old @ [NL, NL] @ ?rc) \<noteq> NL" by simp
  moreover have "old @ [NL, NL] @ ?rc @ [NL] = (old @ [NL, NL] @ ?rc) @ [NL]" by simp
  ultimately show ?thesis by (simp only: ends_in_one_newline_snoc) simp
qed

lemma filter_nth_distinct:
  assumes "distinct ns" "i < length ns"
  shows "filter (\<lambda>j. ns ! j = ns ! i) [0..<length ns] = [i]"
proof -
  have "filter (\<lambda>j. ns ! j = ns ! i) [0..<length ns] = filter (\<lambda>j. j = i) [0..<length ns]"
    using assms by (intro filter_cong refl) (auto simp: nth_eq_iff_index_eq)
  also have "\<dots> = [i]" using assms(2) by (induction ns rule: rev_induct) (auto simp: less_Suc_eq)
  finally show ?thesis .
qed

subsection \<open>The lines of the new content\<close>

lemma splitlines_from_newline:
  "CR \<notin> set s \<Longrightarrow>
   splitlines_from cur (s @ NL # t) =
     splitlines_from cur s
       @ (if (s = [] \<and> cur = []) \<or> (s \<noteq> [] \<and> is_linebreak (last s)) then [[]] else [])
       @ splitlines_from [] t"
proof (induction cur s rule: splitlines_from.induct)
  case (1 cur)
  have "splitlines_from cur (NL # t) = cur # splitlines_from [] t"
    by (simp add: is_linebreak_def)
  then show ?case by simp
next
  case (2 cur c cs)
  from "2.prems" have ncr: "c \<noteq> CR" and rest: "CR \<notin> set cs" by auto
  note u1 = splitlines_from.simps(2) [of cur c "cs @ NL # t"]
  note u2 = splitlines_from.simps(2) [of cur c cs]
  show ?case
  proof (cases "is_linebreak c")
    case True
    have l: "splitlines_from cur ((c # cs) @ NL # t) = cur # splitlines_from [] (cs @ NL # t)"
      using u1 ncr True by (simp del: splitlines_from.simps)
    have r: "splitlines_from cur (c # cs) = cur # splitlines_from [] cs"
      using u2 ncr True by (simp del: splitlines_from.simps)
    have "((cs = [] \<and> ([]::ustring) = []) \<or> (cs \<noteq> [] \<and> is_linebreak (last cs)))
        = ((c # cs = [] \<and> cur = []) \<or> (c # cs \<noteq> [] \<and> is_linebreak (last (c # cs))))"
      using True by simp
    with "2.IH"(4) [OF ncr True rest] l r show ?thesis
      by (simp del: splitlines_from.simps)
  next
    case False
    have l: "splitlines_from cur ((c # cs) @ NL # t) = splitlines_from (cur @ [c]) (cs @ NL # t)"
      using u1 ncr False by (simp del: splitlines_from.simps)
    have r: "splitlines_from cur (c # cs) = splitlines_from (cur @ [c]) cs"
      using u2 ncr False by (simp del: splitlines_from.simps)
    have "((cs = [] \<and> cur @ [c] = []) \<or> (cs \<noteq> [] \<and> is_linebreak (last cs)))
        = ((c # cs = [] \<and> cur = []) \<or> (c # cs \<noteq> [] \<and> is_linebreak (last (c # cs))))"
      using False by simp
    with "2.IH"(5) [OF ncr False rest] l r show ?thesis
      by (simp del: splitlines_from.simps)
  qed
qed

lemma splitlines_newline:
  "CR \<notin> set s \<Longrightarrow>
   splitlines (s @ NL # t) =
     splitlines s @ (if s = [] \<or> is_linebreak (last s) then [[]] else []) @ splitlines t"
  using splitlines_from_newline [of s "[]" t] by (auto simp: splitlines_def)

lemma splitlines_leading_newline: "splitlines (NL # t) = [] # splitlines t"
  using splitlines_newline [of "[]" t] by (simp add: splitlines_def)

lemma lines_after_append:
  assumes "CR \<notin> set old"
  shows "splitlines (old @ [NL, NL] @ res @ [NL]) =
     splitlines old @ (if old = [] \<or> is_linebreak (last old) then [[], []] else [[]])
       @ splitlines (res @ [NL])"
proof -
  have "splitlines (old @ [NL, NL] @ res @ [NL]) = splitlines (old @ NL # (NL # res @ [NL]))"
    by simp
  also have "\<dots> = splitlines old @ (if old = [] \<or> is_linebreak (last old) then [[]] else [])
      @ splitlines (NL # res @ [NL])"
    using assms by (rule splitlines_newline)
  finally show ?thesis by (simp add: splitlines_leading_newline)
qed

text \<open>
  Claim C6, as amended. For a list of distinct notes, \<open>step_4\<close> replaces the content of
  each note by the content as read, followed by \<open>\n\n\<close>, the substituted resources text
  and one newline. One empty line stands between the content and the resources text when
  the content is not empty and does not end in a line break, and two stand there when it
  does, as every note of the splitter does. When the stripped template is not empty, the
  new content ends in exactly one newline.
\<close>

theorem resources_appended:
  assumes "read_text files resources_path = Some template"
    and "distinct note_files"
    and "\<forall>p \<in> set note_files. files p \<noteq> None"
  shows "\<exists>files'. step_4 files note_files resources_path = Inr files'
     \<and> (\<forall>i < length note_files. \<exists>old.
           read_text files (note_files ! i) = Some old
           \<and> files' (note_files ! i) =
               Some (old @ [NL, NL] @ resources_content (strip template) note_files i @ [NL])
           \<and> splitlines (old @ [NL, NL] @ resources_content (strip template) note_files i @ [NL])
               = splitlines old
                 @ (if old = [] \<or> is_linebreak (last old) then [[], []] else [[]])
                 @ splitlines (resources_content (strip template) note_files i @ [NL])
           \<and> (strip template \<noteq> [] \<longrightarrow>
                ends_in_one_newline
                  (old @ [NL, NL] @ resources_content (strip template) note_files i @ [NL])))"
proof -
  have ex: "\<forall>i \<in> set [0..<length note_files]. files (note_files ! i) \<noteq> None"
    using assms(3) by simp
  have "step_4 files note_files resources_path =
      step_4_loop (strip template) note_files [0..<length note_files] files"
    using assms(1) by (simp add: step_4_def)
  also note step_4_loop_run [OF ex, of "strip template"]
  finally have run: "step_4 files note_files resources_path =
    Inr (\<lambda>p. map_option (\<lambda>old. foldl (append_once (strip template) note_files) old
                 (filter (\<lambda>i. note_files ! i = p) [0..<length note_files])) (files p))" .
  have "\<forall>i < length note_files. \<exists>old.
           read_text files (note_files ! i) = Some old
           \<and> map_option (\<lambda>old. foldl (append_once (strip template) note_files) old
                 (filter (\<lambda>j. note_files ! j = note_files ! i) [0..<length note_files]))
                 (files (note_files ! i)) =
               Some (old @ [NL, NL] @ resources_content (strip template) note_files i @ [NL])
           \<and> splitlines (old @ [NL, NL] @ resources_content (strip template) note_files i @ [NL])
               = splitlines old
                 @ (if old = [] \<or> is_linebreak (last old) then [[], []] else [[]])
                 @ splitlines (resources_content (strip template) note_files i @ [NL])
           \<and> (strip template \<noteq> [] \<longrightarrow>
                ends_in_one_newline
                  (old @ [NL, NL] @ resources_content (strip template) note_files i @ [NL]))"
  proof (intro allI impI)
    fix i assume i: "i < length note_files"
    then have "note_files ! i \<in> set note_files" by simp
    with assms(3) obtain raw where raw: "files (note_files ! i) = Some raw" by blast
    let ?old = "universal_newlines raw"
    let ?rc = "resources_content (strip template) note_files i"
    have 1: "read_text files (note_files ! i) = Some ?old" using raw by (simp add: read_text_def)
    have 2: "map_option (\<lambda>old. foldl (append_once (strip template) note_files) old
                 (filter (\<lambda>j. note_files ! j = note_files ! i) [0..<length note_files]))
                 (files (note_files ! i)) = Some (?old @ [NL, NL] @ ?rc @ [NL])"
      using filter_nth_distinct [OF assms(2) i] raw by (simp add: append_once_def)
    have 3: "splitlines (?old @ [NL, NL] @ ?rc @ [NL])
               = splitlines ?old
                 @ (if ?old = [] \<or> is_linebreak (last ?old) then [[], []] else [[]])
                 @ splitlines (?rc @ [NL])"
      using un_no_CR by (rule lines_after_append)
    have 4: "strip template \<noteq> [] \<longrightarrow> ends_in_one_newline (?old @ [NL, NL] @ ?rc @ [NL])"
      using resources_one_newline by blast
    from 1 2 3 4 show "\<exists>old.
           read_text files (note_files ! i) = Some old
           \<and> map_option (\<lambda>old. foldl (append_once (strip template) note_files) old
                 (filter (\<lambda>j. note_files ! j = note_files ! i) [0..<length note_files]))
                 (files (note_files ! i)) =
               Some (old @ [NL, NL] @ resources_content (strip template) note_files i @ [NL])
           \<and> splitlines (old @ [NL, NL] @ resources_content (strip template) note_files i @ [NL])
               = splitlines old
                 @ (if old = [] \<or> is_linebreak (last old) then [[], []] else [[]])
                 @ splitlines (resources_content (strip template) note_files i @ [NL])
           \<and> (strip template \<noteq> [] \<longrightarrow>
                ends_in_one_newline
                  (old @ [NL, NL] @ resources_content (strip template) note_files i @ [NL]))"
      by blast
  qed
  then show ?thesis unfolding run by simp
qed

theorem resources_appended_witness:
  "\<exists>files'. step_4 [ustr ''r.md'' \<mapsto> ustr ''Next: <NEXT_NOTE_LINK>\<newline>'',
                      ustr ''n/A.md'' \<mapsto> ustr ''# A'']
               [ustr ''n/A.md''] (ustr ''r.md'') = Inr files'
     \<and> files' (ustr ''n/A.md'') = Some (ustr ''# A\<newline>\<newline>Next: N/A\<newline>'')
     \<and> ends_in_one_newline (ustr ''# A\<newline>\<newline>Next: N/A\<newline>'')"
proof -
  let ?files = "[ustr ''r.md'' \<mapsto> ustr ''Next: <NEXT_NOTE_LINK>\<newline>'',
                 ustr ''n/A.md'' \<mapsto> ustr ''# A'']"
  have 1: "read_text ?files (ustr ''r.md'') = Some (ustr ''Next: <NEXT_NOTE_LINK>\<newline>'')"
    by (simp add: read_text_def ustr_def)
  have 2: "distinct [ustr ''n/A.md'']" by simp
  have 3: "\<forall>p \<in> set [ustr ''n/A.md'']. ?files p \<noteq> None" by simp
  have s: "strip (ustr ''Next: <NEXT_NOTE_LINK>\<newline>'') = ustr ''Next: <NEXT_NOTE_LINK>''"
    by (simp add: strip_def is_space_def ustr_def)
  have ne: "ustr ''Next: <NEXT_NOTE_LINK>'' \<noteq> []" by (simp add: ustr_def)
  have rc: "resources_content (ustr ''Next: <NEXT_NOTE_LINK>'') [ustr ''n/A.md''] 0 = ustr ''Next: N/A''"
    by (simp add: resources_content_def next_note_link_def placeholder_def startswith_def ustr_def)
  have old: "read_text ?files ([ustr ''n/A.md''] ! 0) = Some (ustr ''# A'')"
    by (simp add: read_text_def ustr_def)
  have cat: "ustr ''# A'' @ [NL, NL] @ ustr ''Next: N/A'' @ [NL] = ustr ''# A\<newline>\<newline>Next: N/A\<newline>''"
    by (simp add: ustr_def)
  from resources_appended [OF 1 2 3] obtain files' where
    r: "step_4 ?files [ustr ''n/A.md''] (ustr ''r.md'') = Inr files'"
    and f: "\<forall>i < length [ustr ''n/A.md'']. \<exists>old.
           read_text ?files ([ustr ''n/A.md''] ! i) = Some old
           \<and> files' ([ustr ''n/A.md''] ! i) =
               Some (old @ [NL, NL]
                 @ resources_content (strip (ustr ''Next: <NEXT_NOTE_LINK>\<newline>'')) [ustr ''n/A.md''] i @ [NL])
           \<and> splitlines (old @ [NL, NL]
                 @ resources_content (strip (ustr ''Next: <NEXT_NOTE_LINK>\<newline>'')) [ustr ''n/A.md''] i @ [NL])
               = splitlines old
                 @ (if old = [] \<or> is_linebreak (last old) then [[], []] else [[]])
                 @ splitlines (resources_content (strip (ustr ''Next: <NEXT_NOTE_LINK>\<newline>'')) [ustr ''n/A.md''] i @ [NL])
           \<and> (strip (ustr ''Next: <NEXT_NOTE_LINK>\<newline>'') \<noteq> [] \<longrightarrow>
                ends_in_one_newline
                  (old @ [NL, NL]
                    @ resources_content (strip (ustr ''Next: <NEXT_NOTE_LINK>\<newline>'')) [ustr ''n/A.md''] i @ [NL]))"
    by blast
  have "0 < length [ustr ''n/A.md'']" by simp
  with f obtain old0 where
    o: "read_text ?files ([ustr ''n/A.md''] ! 0) = Some old0"
    and w: "files' ([ustr ''n/A.md''] ! 0) =
               Some (old0 @ [NL, NL]
                 @ resources_content (strip (ustr ''Next: <NEXT_NOTE_LINK>\<newline>'')) [ustr ''n/A.md''] 0 @ [NL])"
    and e: "strip (ustr ''Next: <NEXT_NOTE_LINK>\<newline>'') \<noteq> [] \<longrightarrow>
                ends_in_one_newline
                  (old0 @ [NL, NL]
                    @ resources_content (strip (ustr ''Next: <NEXT_NOTE_LINK>\<newline>'')) [ustr ''n/A.md''] 0 @ [NL])"
    by blast
  from o old have o0: "old0 = ustr ''# A''" by simp
  from w have "files' (ustr ''n/A.md'') = Some (ustr ''# A\<newline>\<newline>Next: N/A\<newline>'')"
    unfolding o0 s rc cat by simp
  moreover from e ne have "ends_in_one_newline (ustr ''# A\<newline>\<newline>Next: N/A\<newline>'')"
    unfolding o0 s rc cat by simp
  ultimately show ?thesis using r by blast
qed

text \<open>
  Claim C6 as stated fails in the pipeline: the note ends in a newline when \<open>step_4\<close>
  reads it, so two empty lines, not one, stand before the resources text.
\<close>

theorem resources_after_two_blank_lines:
  "main converter_not_run example_args
      [ustr ''book.md'' \<mapsto> ustr ''# A'',
       ustr ''templates/metadata.yml'' \<mapsto> ustr ''t: b\<newline>'',
       ustr ''templates/resources.md'' \<mapsto> ustr ''Next: <NEXT_NOTE_LINK>\<newline>'']
    = Inr (Complete,
       [ustr ''book.md'' \<mapsto> ustr ''# A'',
        ustr ''templates/metadata.yml'' \<mapsto> ustr ''t: b\<newline>'',
        ustr ''templates/resources.md'' \<mapsto> ustr ''Next: <NEXT_NOTE_LINK>\<newline>'',
        ustr ''notes/A.md'' \<mapsto> ustr ''t: b\<newline>\<newline># A\<newline>\<newline>\<newline>Next: N/A\<newline>''])
   \<and> step_4
      [ustr ''book.md'' \<mapsto> ustr ''# A'',
       ustr ''templates/metadata.yml'' \<mapsto> ustr ''t: b\<newline>'',
       ustr ''templates/resources.md'' \<mapsto> ustr ''Next: <NEXT_NOTE_LINK>\<newline>'',
       ustr ''notes/A.md'' \<mapsto> ustr ''t: b\<newline>\<newline># A\<newline>'']
      [ustr ''notes/A.md''] (ustr ''templates/resources.md'')
    = Inr
       [ustr ''book.md'' \<mapsto> ustr ''# A'',
        ustr ''templates/metadata.yml'' \<mapsto> ustr ''t: b\<newline>'',
        ustr ''templates/resources.md'' \<mapsto> ustr ''Next: <NEXT_NOTE_LINK>\<newline>'',
        ustr ''notes/A.md'' \<mapsto> ustr ''t: b\<newline>\<newline># A\<newline>\<newline>\<newline>Next: N/A\<newline>'']
   \<and> splitlines (ustr ''t: b\<newline>\<newline># A\<newline>\<newline>\<newline>Next: N/A\<newline>'')
       = [ustr ''t: b'', [], ustr ''# A'', [], [], ustr ''Next: N/A'']
   \<and> \<not> separated_by_one_blank_line (ustr ''t: b\<newline>\<newline># A\<newline>'') (ustr ''Next: N/A'')
         (ustr ''t: b\<newline>\<newline># A\<newline>\<newline>\<newline>Next: N/A\<newline>'')"
proof -
  let ?f0 = "[ustr ''book.md'' \<mapsto> ustr ''# A'',
       ustr ''templates/metadata.yml'' \<mapsto> ustr ''t: b\<newline>'',
       ustr ''templates/resources.md'' \<mapsto> ustr ''Next: <NEXT_NOTE_LINK>\<newline>'']"
  let ?f1 = "[ustr ''book.md'' \<mapsto> ustr ''# A'',
       ustr ''templates/metadata.yml'' \<mapsto> ustr ''t: b\<newline>'',
       ustr ''templates/resources.md'' \<mapsto> ustr ''Next: <NEXT_NOTE_LINK>\<newline>'',
       ustr ''notes/A.md'' \<mapsto> ustr ''# A\<newline>'']"
  let ?f3 = "[ustr ''book.md'' \<mapsto> ustr ''# A'',
       ustr ''templates/metadata.yml'' \<mapsto> ustr ''t: b\<newline>'',
       ustr ''templates/resources.md'' \<mapsto> ustr ''Next: <NEXT_NOTE_LINK>\<newline>'',
       ustr ''notes/A.md'' \<mapsto> ustr ''t: b\<newline>\<newline># A\<newline>'']"
  let ?f4 = "[ustr ''book.md'' \<mapsto> ustr ''# A'',
        ustr ''templates/metadata.yml'' \<mapsto> ustr ''t: b\<newline>'',
        ustr ''templates/resources.md'' \<mapsto> ustr ''Next: <NEXT_NOTE_LINK>\<newline>'',
        ustr ''notes/A.md'' \<mapsto> ustr ''t: b\<newline>\<newline># A\<newline>\<newline>\<newline>Next: N/A\<newline>'']"
  have r: "read_text ?f0 (ustr ''book.md'') = Some (ustr ''# A'')"
    by (simp add: eval_text)
  have c: "chunks_of 1 (ustr ''# A'') = [[ustr ''# A'']]"
    by (simp add: eval_text eval_chunks)
  have p: "note_path_of (ustr ''notes'') (ustr ''# A'') = ustr ''notes/A.md''"
    by (simp add: eval_text eval_path)
  have t: "note_text [ustr ''# A''] = ustr ''# A\<newline>''"
    by (simp add: eval_text eval_path)
  have s2: "step_2 ?f0 (ustr ''book.md'') (ustr ''notes'') (Some 1) = Inr ([ustr ''notes/A.md''], ?f1)"
    unfolding step_2_run [OF r] c by (simp add: write_notes_def p t)
  have s3: "step_3 ?f1 [ustr ''notes/A.md''] (ustr ''templates/metadata.yml'') = Inr ?f3"
    by (simp add: eval_step_3)
  have s4: "step_4 ?f3 [ustr ''notes/A.md''] (ustr ''templates/resources.md'') = Inr ?f4"
    by (simp add: eval_step_4)
  have m: "main converter_not_run example_args ?f0 = Inr (Complete, ?f4)"
    by (simp add: main_def files_after_step_1_def example_args_def s2 s3 s4)
  have l: "splitlines (ustr ''t: b\<newline>\<newline># A\<newline>\<newline>\<newline>Next: N/A\<newline>'')
       = [ustr ''t: b'', [], ustr ''# A'', [], [], ustr ''Next: N/A'']"
    by (simp add: eval_text)
  have n: "\<not> separated_by_one_blank_line (ustr ''t: b\<newline>\<newline># A\<newline>'') (ustr ''Next: N/A'')
         (ustr ''t: b\<newline>\<newline># A\<newline>\<newline>\<newline>Next: N/A\<newline>'')"
    by (simp add: separated_by_one_blank_line_def eval_text)
  from m s4 l n show ?thesis by (simp only: simp_thms)
qed

section \<open>The reference to the next note\<close>









subsection \<open>Base names\<close>

lemma rev_takeWhile_all:
  "c \<notin> set s \<Longrightarrow> rev (takeWhile (\<lambda>x. x \<noteq> c) (rev s)) = s"
  by (induction s rule: rev_induct) auto

lemma basename_eq: "basename p = rev (takeWhile (\<lambda>x. x \<noteq> SLASH) (rev p))"
proof (cases "SLASH \<in> set p")
  case False
  then have "rev (takeWhile (\<lambda>x. x \<noteq> SLASH) (rev p)) = p" by (rule rev_takeWhile_all)
  moreover have "basename p = p" using False by (simp add: basename_def rfind_def)
  ultimately show ?thesis by (simp only:)
next
  case True
  let ?t = "takeWhile (\<lambda>x. x \<noteq> SLASH) (rev p)"
  have "?t \<noteq> rev p" using True by auto
  then have lt: "length ?t < length p"
    using length_takeWhile_le [of "\<lambda>x. x \<noteq> SLASH" "rev p"]
    by (metis le_neq_implies_less length_rev takeWhile_eq_take take_all_iff order_refl)
  then have "nat (rfind SLASH p + 1) = length p - length ?t"
    using True by (simp add: rfind_def)
  then have "basename p = drop (length p - length ?t) p" by (simp add: basename_def)
  also have "\<dots> = rev (take (length ?t) (rev p))" by (simp add: rev_take)
  also have "take (length ?t) (rev p) = ?t" by (simp add: takeWhile_eq_take [symmetric])
  finally show ?thesis .
qed

lemma basename_join:
  assumes "SLASH \<notin> set name" "pre = [] \<or> last pre = SLASH"
  shows "basename (pre @ name) = name"
proof (cases "pre = []")
  case True
  with assms(1) show ?thesis by (simp add: basename_eq rev_takeWhile_all)
next
  case False
  with assms(2) obtain q where q: "pre = q @ [SLASH]" by (metis append_butlast_last_id)
  have "takeWhile (\<lambda>x. x \<noteq> SLASH) (rev name @ SLASH # rev q) = rev name"
    using assms(1) by (subst takeWhile_append2) auto
  then show ?thesis by (simp add: basename_eq q)
qed

lemma sanitize_no_slash: "SLASH \<notin> set (sanitize s)"
  by (simp add: sanitize_def forbidden_def)

lemma endswith_single: "endswith [c] s \<Longrightarrow> last s = c"
  by (cases s rule: rev_cases) (auto simp: endswith_def)

lemma note_path_basename:
  "basename (note_path_of dir x) = sanitize (heading_text_of x) @ ustr ''.md''"
proof -
  let ?name = "sanitize (heading_text_of x) @ ustr ''.md''"
  have ns: "SLASH \<notin> set ?name" using sanitize_no_slash by (simp add: ustr_def)
  then have nst: "\<not> startswith [SLASH] ?name"
    by (cases ?name) (auto simp: startswith_def)
  have "\<exists>pre. note_path_of dir x = pre @ ?name \<and> (pre = [] \<or> last pre = SLASH)"
  proof (cases "dir = [] \<or> endswith [SLASH] dir")
    case True
    then have "note_path_of dir x = dir @ ?name \<and> (dir = [] \<or> last dir = SLASH)"
      using nst endswith_single [of SLASH dir] by (auto simp: note_path_of_def path_join_def)
    then show ?thesis by blast
  next
    case False
    then have "note_path_of dir x = (dir @ [SLASH]) @ ?name
        \<and> (dir @ [SLASH] = [] \<or> last (dir @ [SLASH]) = SLASH)"
      using nst by (simp add: note_path_of_def path_join_def)
    then show ?thesis by blast
  qed
  then obtain pre where "note_path_of dir x = pre @ ?name" "pre = [] \<or> last pre = SLASH"
    by blast
  with basename_join [OF ns] show ?thesis by simp
qed



text \<open>
  A heading without a character other than the dot, or without a character at all once
  sanitised, as \<open># ?\<close>, gives a file name in which \<open>os.path.splitext\<close> finds no
  extension: the reference to such a note keeps \<open>.md\<close>.
\<close>

lemma base_name_of_dots:
  "fst (splitext (basename (note_path_of (ustr ''n'') (ustr ''# ?'')))) = ustr ''.md''"
  unfolding note_path_basename
  by (simp add: splitext_def rfind_def heading_text_of_def strip_def lstrip_def is_space_def
      sanitize_def forbidden_def ustr_def)

subsection \<open>The reference\<close>



section \<open>Headings with the same file name\<close>

lemma count_list_map_filter: "count_list (map f xs) y = length (filter (\<lambda>x. f x = y) xs)"
  by (induction xs) simp_all

lemma write_notes_lookup:
  "\<exists>c \<in> set cs. note_path_of dir (hd c) = p \<Longrightarrow>
   write_notes dir cs files p =
     Some (note_text (last (filter (\<lambda>c. note_path_of dir (hd c) = p) cs)))"
proof (induction cs rule: rev_induct)
  case Nil
  then show ?case by simp
next
  case (snoc c cs)
  show ?case
  proof (cases "note_path_of dir (hd c) = p")
    case True
    then show ?thesis by (simp add: write_notes_snoc)
  next
    case False
    with snoc.prems have "\<exists>c \<in> set cs. note_path_of dir (hd c) = p" by auto
    from snoc.IH [OF this] False show ?thesis by (simp add: write_notes_snoc)
  qed
qed

lemma lower_md: "lower (x @ ustr ''.md'') = lower x @ ustr ''.md''"
  by (simp add: lower_def ustr_def)

lemma endswith_append: "endswith suf (x @ suf)"
  by (simp add: endswith_def)

lemma note_path_md: "endswith (ustr ''.md'') (lower (note_path_of dir x))"
proof -
  have "\<exists>y. note_path_of dir x = y @ ustr ''.md''"
  proof (cases "startswith [SLASH] (sanitize (heading_text_of x) @ ustr ''.md'')")
    case True
    then show ?thesis by (auto simp: note_path_of_def path_join_def)
  next
    case False
    show ?thesis
    proof (cases "dir = [] \<or> endswith [SLASH] dir")
      case True
      with False have "note_path_of dir x = (dir @ sanitize (heading_text_of x)) @ ustr ''.md''"
        by (simp add: note_path_of_def path_join_def)
      then show ?thesis by blast
    next
      case nosep: False
      with False have "note_path_of dir x = (dir @ [SLASH] @ sanitize (heading_text_of x)) @ ustr ''.md''"
        by (simp add: note_path_of_def path_join_def)
      then show ?thesis by blast
    qed
  qed
  then obtain y where "note_path_of dir x = y @ ustr ''.md''" by blast
  then show ?thesis by (simp only: lower_md endswith_append)
qed

lemma str_join_set: "set (str_join sep xs) \<subseteq> set sep \<union> \<Union> (set ` set xs)"
  by (induction sep xs rule: str_join.induct) auto

lemma splitlines_no_CR: "l \<in> set (splitlines s) \<Longrightarrow> CR \<notin> set l"
  using splitlines_from_no_break [of "[]" l s]
  by (auto simp: splitlines_def is_linebreak_def)

lemma note_text_no_CR:
  assumes "c \<in> set (chunks_of L content)"
  shows "CR \<notin> set (note_text c)"
proof -
  have "\<And>l. l \<in> set c \<Longrightarrow> CR \<notin> set l"
    using chunk_lines_subset [OF assms] splitlines_no_CR by blast
  then have "CR \<notin> set (str_join [NL] c)" using str_join_set [of "[NL]" c] by auto
  then show ?thesis by (simp add: note_text_def)
qed

lemma prepend_closed:
  "CR \<notin> set yaml \<Longrightarrow> CR \<notin> set old \<Longrightarrow>
   (prepend_once yaml ^^ k) old = concat (replicate k (yaml @ [NL, NL])) @ old"
proof (induction k)
  case 0
  show ?case by simp
next
  case (Suc k)
  have "CR \<notin> set (concat (replicate k (yaml @ [NL, NL])) @ old)"
    using Suc.prems by auto
  then have "universal_newlines (concat (replicate k (yaml @ [NL, NL])) @ old)
      = concat (replicate k (yaml @ [NL, NL])) @ old" by (rule un_id)
  with Suc show ?case by (simp add: prepend_once_def)
qed

lemma positions_count:
  "length (filter (\<lambda>i. xs ! i = p) [0..<length xs]) = count_list xs p"
proof (induction xs rule: rev_induct)
  case Nil
  show ?case by simp
next
  case (snoc x xs)
  have "filter (\<lambda>i. (xs @ [x]) ! i = p) [0..<length xs] = filter (\<lambda>i. xs ! i = p) [0..<length xs]"
    by (intro filter_cong refl) (simp add: nth_append)
  with snoc show ?case by simp
qed

text \<open>
  Claim C10. The path list of \<open>step_2\<close> holds a path once for each chunk written to it.
  With the metadata template readable, \<open>step_3\<close> then leaves in a note of the list the
  stripped template and an empty line as many times as the path occurs in the list, before
  the text of the last chunk written to the note; and \<open>step_4\<close>, with the resources
  template readable, appends to the note once for each position of the path in the list.
\<close>

theorem colliding_notes_processed_per_occurrence:
  assumes "read_text files outfile_path = Some content"
    and "step_2 files outfile_path outdir_path (Some L) = Inr (paths, files2)"
    and "read_text files2 metadata_path = Some mt"
    and "p \<in> set paths"
  shows "count_list paths p =
           length (filter (\<lambda>c. note_path_of outdir_path (hd c) = p) (chunks_of L content))
    \<and> (\<exists>files3. step_3 files2 paths metadata_path = Inr files3
          \<and> files3 p =
              Some (concat (replicate (count_list paths p) (strip mt @ [NL, NL]))
                    @ note_text (last (filter (\<lambda>c. note_path_of outdir_path (hd c) = p)
                                         (chunks_of L content))))
          \<and> (\<forall>rt. read_text files3 resources_path = Some rt \<longrightarrow>
                (\<exists>files4. step_4 files3 paths resources_path = Inr files4
                   \<and> files4 p =
                       map_option (\<lambda>old. foldl (append_once (strip rt) paths) old
                                      (filter (\<lambda>i. paths ! i = p) [0..<length paths]))
                         (files3 p)
                   \<and> length (filter (\<lambda>i. paths ! i = p) [0..<length paths])
                       = count_list paths p)))"
proof -
  let ?cs = "chunks_of L content"
  let ?path = "\<lambda>c. note_path_of outdir_path (hd c)"
  from step_2_run [OF assms(1), of outdir_path L] assms(2)
  have paths: "paths = map ?path ?cs" and files2: "files2 = write_notes outdir_path ?cs files"
    by simp_all
  have count: "count_list paths p = length (filter (\<lambda>c. ?path c = p) ?cs)"
    unfolding paths by (rule count_list_map_filter)
  have stored: "\<And>q. q \<in> set paths \<Longrightarrow>
      files2 q = Some (note_text (last (filter (\<lambda>c. ?path c = q) ?cs)))"
    unfolding paths files2 by (intro write_notes_lookup) auto
  have ex2: "\<forall>q \<in> set paths. endswith (ustr ''.md'') (lower q) \<longrightarrow> files2 q \<noteq> None"
    using stored by simp
  have md: "\<And>q. q \<in> set paths \<Longrightarrow> endswith (ustr ''.md'') (lower q)"
    unfolding paths using note_path_md by auto
  let ?files3 = "\<lambda>q. if endswith (ustr ''.md'') (lower q)
              then map_option (prepend_once (strip mt) ^^ count_list paths q) (files2 q)
              else files2 q"
  have run3: "step_3 files2 paths metadata_path = Inr ?files3"
    using assms(3) step_3_loop_run [OF ex2, of "strip mt"] by (simp add: step_3_def)
  have mt: "CR \<notin> set (strip mt)"
  proof -
    from assms(3) obtain raw where "mt = universal_newlines raw"
      by (auto simp: read_text_def)
    then have "CR \<notin> set mt" by (simp add: un_no_CR)
    with strip_subset [of mt] show ?thesis by auto
  qed
  let ?last = "last (filter (\<lambda>c. ?path c = p) ?cs)"
  have "filter (\<lambda>c. ?path c = p) ?cs \<noteq> []"
    using assms(4) count by (auto simp: count_list_0_iff)
  then have "?last \<in> set (filter (\<lambda>c. ?path c = p) ?cs)" by (rule last_in_set)
  then have "?last \<in> set ?cs" by simp
  then have old: "CR \<notin> set (note_text ?last)" by (rule note_text_no_CR)
  have f3: "?files3 p = Some (concat (replicate (count_list paths p) (strip mt @ [NL, NL]))
                    @ note_text ?last)"
    using md [OF assms(4)] stored [OF assms(4)] prepend_closed [OF mt old] by simp
  have step4: "\<forall>rt. read_text ?files3 resources_path = Some rt \<longrightarrow>
                (\<exists>files4. step_4 ?files3 paths resources_path = Inr files4
                   \<and> files4 p =
                       map_option (\<lambda>old. foldl (append_once (strip rt) paths) old
                                      (filter (\<lambda>i. paths ! i = p) [0..<length paths]))
                         (?files3 p)
                   \<and> length (filter (\<lambda>i. paths ! i = p) [0..<length paths])
                       = count_list paths p)"
  proof (intro allI impI)
    fix rt assume rt: "read_text ?files3 resources_path = Some rt"
    have ex3: "\<forall>i \<in> set [0..<length paths]. ?files3 (paths ! i) \<noteq> None"
      using md stored by simp
    have "step_4 ?files3 paths resources_path =
        step_4_loop (strip rt) paths [0..<length paths] ?files3"
      using rt by (simp add: step_4_def)
    also note step_4_loop_run [OF ex3, of "strip rt"]
    finally show "\<exists>files4. step_4 ?files3 paths resources_path = Inr files4
                   \<and> files4 p =
                       map_option (\<lambda>old. foldl (append_once (strip rt) paths) old
                                      (filter (\<lambda>i. paths ! i = p) [0..<length paths]))
                         (?files3 p)
                   \<and> length (filter (\<lambda>i. paths ! i = p) [0..<length paths])
                       = count_list paths p"
      by (simp add: positions_count)
  qed
  from count run3 f3 step4 show ?thesis by blast
qed

theorem colliding_notes_processed_per_occurrence_witness:
  "\<exists>files3.
     step_2 [ustr ''book.md'' \<mapsto> ustr ''# X?\<newline>a\<newline># X\<newline>b'', ustr ''m.yml'' \<mapsto> ustr ''t'']
        (ustr ''book.md'') (ustr ''n'') (Some 1)
       = Inr ([ustr ''n/X.md'', ustr ''n/X.md''],
              [ustr ''book.md'' \<mapsto> ustr ''# X?\<newline>a\<newline># X\<newline>b'', ustr ''m.yml'' \<mapsto> ustr ''t'',
               ustr ''n/X.md'' \<mapsto> ustr ''# X\<newline>b\<newline>''])
     \<and> step_3 [ustr ''book.md'' \<mapsto> ustr ''# X?\<newline>a\<newline># X\<newline>b'', ustr ''m.yml'' \<mapsto> ustr ''t'',
                ustr ''n/X.md'' \<mapsto> ustr ''# X\<newline>b\<newline>'']
          [ustr ''n/X.md'', ustr ''n/X.md''] (ustr ''m.yml'') = Inr files3
     \<and> files3 (ustr ''n/X.md'') = Some (ustr ''t\<newline>\<newline>t\<newline>\<newline># X\<newline>b\<newline>'')"
proof -
  let ?doc = "ustr ''# X?\<newline>a\<newline># X\<newline>b''"
  let ?files = "[ustr ''book.md'' \<mapsto> ?doc, ustr ''m.yml'' \<mapsto> ustr ''t'']"
  let ?files2 = "[ustr ''book.md'' \<mapsto> ?doc, ustr ''m.yml'' \<mapsto> ustr ''t'',
               ustr ''n/X.md'' \<mapsto> ustr ''# X\<newline>b\<newline>'']"
  let ?paths = "[ustr ''n/X.md'', ustr ''n/X.md'']"
  have r: "read_text ?files (ustr ''book.md'') = Some ?doc"
    by (simp add: eval_text)
  have c: "chunks_of 1 ?doc = [[ustr ''# X?'', ustr ''a''], [ustr ''# X'', ustr ''b'']]"
    by (simp add: eval_text eval_chunks)
  have p: "note_path_of (ustr ''n'') (ustr ''# X?'') = ustr ''n/X.md''"
    "note_path_of (ustr ''n'') (ustr ''# X'') = ustr ''n/X.md''"
    by (simp_all add: eval_text eval_path)
  have t: "note_text [ustr ''# X?'', ustr ''a''] = ustr ''# X?\<newline>a\<newline>''"
    "note_text [ustr ''# X'', ustr ''b''] = ustr ''# X\<newline>b\<newline>''"
    by (simp_all add: eval_text eval_path)
  have s2: "step_2 ?files (ustr ''book.md'') (ustr ''n'') (Some 1) = Inr (?paths, ?files2)"
    unfolding step_2_run [OF r] c by (simp add: write_notes_def p t)
  have m: "read_text ?files2 (ustr ''m.yml'') = Some (ustr ''t'')"
    by (simp add: eval_text)
  have pin: "ustr ''n/X.md'' \<in> set ?paths" by simp
  have st: "strip (ustr ''t'') = ustr ''t''"
    by (simp add: strip_def is_space_def ustr_def)
  from colliding_notes_processed_per_occurrence [OF r s2 m pin]
  obtain files3 where
    "step_3 ?files2 ?paths (ustr ''m.yml'') = Inr files3"
    "files3 (ustr ''n/X.md'') =
       Some (concat (replicate (count_list ?paths (ustr ''n/X.md'')) (strip (ustr ''t'') @ [NL, NL]))
             @ note_text (last (filter (\<lambda>c. note_path_of (ustr ''n'') (hd c) = ustr ''n/X.md'')
                                  (chunks_of 1 ?doc))))"
    by blast
  then have "step_3 ?files2 ?paths (ustr ''m.yml'') = Inr files3
     \<and> files3 (ustr ''n/X.md'') = Some (ustr ''t\<newline>\<newline>t\<newline>\<newline># X\<newline>b\<newline>'')"
    unfolding c st by (simp add: p t numeral_2_eq_2) (simp add: ustr_def)
  with s2 show ?thesis by blast
qed

end
